theory Spec2Isabelle
  imports Main "HOL-Library.AList"
begin

section \<open>Data model\<close>

text \<open>
  The block manager and the scheduler of \<^verbatim>\<open>cacheflow/master\<close>, embedded with
  explicit state passing.  Python exceptions are values of type \<open>error\<close>; a list is a HOL
  list in index order (so \<^verbatim>\<open>pop()\<close> takes \<open>last\<close> and \<^verbatim>\<open>append\<close> adds at the end); a
  \<^verbatim>\<open>dict\<close> is an association list in insertion order with \<open>AList.update\<close> as item
  assignment.
\<close>

datatype error = OutOfMemory | DoubleFree | KeyError | IndexError | AssertionError

text \<open>
  \<open>OutOfMemory\<close> and \<open>DoubleFree\<close> are the two \<^verbatim>\<open>ValueError\<close>s of \<^verbatim>\<open>BlockManager\<close>
  (messages "Out of memory!" and "Double free!").
\<close>

datatype Device = GPU | CPU

text \<open>
  Modelled from the spec: \<^verbatim>\<open>cacheflow/block.py\<close> is not among the sources.  A physical
  block is "identified by a (tier, block_number) pair" and "carries a reference count
  initially 0".  The block objects are created once, by \<^verbatim>\<open>BlockManager.__init__\<close>, one per
  device and number, and are shared by reference between the free lists and the block
  tables.  So the object's identity is the pair below, and its one mutable field lives in
  a store \<open>ref_count\<close> from block identities to Python integers.
\<close>

datatype PhysicalTokenBlock = PhysicalTokenBlock (device: Device) (block_number: nat)

type_synonym ref_counts = "PhysicalTokenBlock \<Rightarrow> int"

record BlockManager =
  bm_device :: Device
  bm_block_size :: nat
  num_blocks :: nat
  free_blocks :: "PhysicalTokenBlock list"

definition BlockManager_init :: "Device \<Rightarrow> nat \<Rightarrow> nat \<Rightarrow> error + BlockManager" where
  "BlockManager_init dev bsize n =
     (if bsize \<notin> {8, 16, 32} then Inl AssertionError
      else Inr \<lparr>bm_device = dev, bm_block_size = bsize, num_blocks = n,
                free_blocks = map (PhysicalTokenBlock dev) [0..<n]\<rparr>)"

text \<open>
  The allocator's two operations.  Both return the allocator and the store as they are
  when the call ends, also when it ends by raising.
\<close>

definition BlockManager_allocate ::
  "BlockManager \<Rightarrow> ref_counts \<Rightarrow> (error + PhysicalTokenBlock) \<times> BlockManager \<times> ref_counts" where
  "BlockManager_allocate bm rc =
     (if free_blocks bm = [] then (Inl OutOfMemory, bm, rc)
      else let block = last (free_blocks bm)
           in (Inr block, bm\<lparr>free_blocks := butlast (free_blocks bm)\<rparr>, rc(block := 1)))"

definition BlockManager_free ::
  "BlockManager \<Rightarrow> PhysicalTokenBlock \<Rightarrow> ref_counts \<Rightarrow> (error + unit) \<times> BlockManager \<times> ref_counts" where
  "BlockManager_free bm block rc =
     (if rc block = 0 then (Inl DoubleFree, bm, rc)
      else let rc' = rc(block := rc block - 1)
           in if rc' block = 0
              then (Inr (), bm\<lparr>free_blocks := free_blocks bm @ [block]\<rparr>, rc')
              else (Inr (), bm, rc'))"

definition get_num_free_blocks :: "BlockManager \<Rightarrow> nat" where
  "get_num_free_blocks bm = length (free_blocks bm)"

section \<open>Sequences and sequence groups\<close>

datatype SequenceStatus = PENDING | RUNNING | SWAPPED | FINISHED

text \<open>
  Modelled from the spec: \<^verbatim>\<open>LogicalTokenBlock\<close> of \<^verbatim>\<open>cacheflow/block.py\<close> is not among the
  sources.  A logical block "carries \<open>block_size\<close>, a current fill count, and the token
  ids stored in it"; the fill count \<^verbatim>\<open>num_tokens\<close> is the length of \<open>token_ids\<close>.
\<close>

record LogicalTokenBlock =
  lb_block_number :: nat
  lb_block_size :: nat
  token_ids :: "int list"

record Sequence =
  seq_id :: int
  seq_block_size :: nat
  logical_token_blocks :: "LogicalTokenBlock list"
  status :: SequenceStatus

record SequenceGroup =
  group_id :: int
  seqs :: "Sequence list"

definition get_len :: "Sequence \<Rightarrow> nat" where
  "get_len seq = sum_list (map (\<lambda>block. length (token_ids block)) (logical_token_blocks seq))"

definition get_token_ids :: "Sequence \<Rightarrow> int list" where
  "get_token_ids seq = concat (map token_ids (logical_token_blocks seq))"

definition num_seqs :: "SequenceGroup \<Rightarrow> SequenceStatus option \<Rightarrow> nat" where
  "num_seqs g st =
     (case st of None \<Rightarrow> length (seqs g)
      | Some x \<Rightarrow> length (filter (\<lambda>seq. status seq = x) (seqs g)))"

section \<open>The block-space manager\<close>

text \<open>
  The manager owns the two allocators, the block tables and (in this embedding) the store
  of the blocks' reference counts.  An operation that raises returns \<open>Inl\<close> of the error;
  the state an aborted operation leaves behind is not modelled.
\<close>

type_synonym BlockTable = "PhysicalTokenBlock list"

record BlockSpaceManager =
  block_size :: nat
  num_total_gpu_blocks :: nat
  num_total_cpu_blocks :: nat
  gpu_allocator :: BlockManager
  cpu_allocator :: BlockManager
  block_tables :: "(int \<times> BlockTable) list"
  ref_count :: ref_counts

definition BlockSpaceManager_init :: "nat \<Rightarrow> nat \<Rightarrow> nat \<Rightarrow> error + BlockSpaceManager" where
  "BlockSpaceManager_init bsize num_gpu_blocks num_cpu_blocks =
     (case BlockManager_init GPU bsize num_gpu_blocks of Inl e \<Rightarrow> Inl e
      | Inr ga \<Rightarrow>
        (case BlockManager_init CPU bsize num_cpu_blocks of Inl e \<Rightarrow> Inl e
         | Inr ca \<Rightarrow>
           Inr \<lparr>block_size = bsize, num_total_gpu_blocks = num_gpu_blocks,
                num_total_cpu_blocks = num_cpu_blocks, gpu_allocator = ga,
                cpu_allocator = ca, block_tables = [], ref_count = (\<lambda>_. 0)\<rparr>))"

text \<open>
  \<open>allocator d s\<close> is \<^verbatim>\<open>self.gpu_allocator\<close> or \<^verbatim>\<open>self.cpu_allocator\<close>;
  \<open>allocate_on d s\<close> is \<^verbatim>\<open>self.<d>_allocator.allocate()\<close> and \<open>free_on d s block\<close> is
  \<^verbatim>\<open>self.<d>_allocator.free(block)\<close>, run on the manager's state.
\<close>

definition allocator :: "Device \<Rightarrow> BlockSpaceManager \<Rightarrow> BlockManager" where
  "allocator d s = (case d of GPU \<Rightarrow> gpu_allocator s | CPU \<Rightarrow> cpu_allocator s)"

definition set_allocator :: "Device \<Rightarrow> BlockManager \<Rightarrow> BlockSpaceManager \<Rightarrow> BlockSpaceManager" where
  "set_allocator d bm s = (case d of GPU \<Rightarrow> s\<lparr>gpu_allocator := bm\<rparr> | CPU \<Rightarrow> s\<lparr>cpu_allocator := bm\<rparr>)"

definition allocate_on ::
  "Device \<Rightarrow> BlockSpaceManager \<Rightarrow> error + (PhysicalTokenBlock \<times> BlockSpaceManager)" where
  "allocate_on d s =
     (case BlockManager_allocate (allocator d s) (ref_count s) of
        (Inl e, _) \<Rightarrow> Inl e
      | (Inr block, bm, rc) \<Rightarrow> Inr (block, (set_allocator d bm s)\<lparr>ref_count := rc\<rparr>))"

definition free_on ::
  "Device \<Rightarrow> BlockSpaceManager \<Rightarrow> PhysicalTokenBlock \<Rightarrow> error + BlockSpaceManager" where
  "free_on d s block =
     (case BlockManager_free (allocator d s) block (ref_count s) of
        (Inl e, _) \<Rightarrow> Inl e
      | (Inr _, bm, rc) \<Rightarrow> Inr ((set_allocator d bm s)\<lparr>ref_count := rc\<rparr>))"

definition can_allocate :: "BlockSpaceManager \<Rightarrow> SequenceGroup \<Rightarrow> error + bool" where
  "can_allocate s seq_group =
     (case seqs seq_group of [] \<Rightarrow> Inl IndexError
      | seq # _ \<Rightarrow>
          Inr (length (logical_token_blocks seq) \<le> get_num_free_blocks (gpu_allocator s)))"

text \<open>The first loop of \<^verbatim>\<open>allocate\<close>: \<open>n\<close> iterations, \<open>k\<close> is \<^verbatim>\<open>seq_group.num_seqs()\<close>.\<close>

fun allocate_blocks ::
  "nat \<Rightarrow> nat \<Rightarrow> BlockTable \<Rightarrow> BlockSpaceManager \<Rightarrow> error + (BlockTable \<times> BlockSpaceManager)" where
  "allocate_blocks 0 k block_table s = Inr (block_table, s)"
| "allocate_blocks (Suc n) k block_table s =
     (case allocate_on GPU s of Inl e \<Rightarrow> Inl e
      | Inr (block, s1) \<Rightarrow>
          allocate_blocks n k (block_table @ [block])
            (s1\<lparr>ref_count := (ref_count s1)(block := int k)\<rparr>))"

text \<open>The second loop of \<^verbatim>\<open>allocate\<close>: every sequence gets a copy of the table.\<close>

fun assign_tables ::
  "Sequence list \<Rightarrow> BlockTable \<Rightarrow> (int \<times> BlockTable) list \<Rightarrow> (int \<times> BlockTable) list" where
  "assign_tables [] block_table bt = bt"
| "assign_tables (seq # rest) block_table bt =
     assign_tables rest block_table (AList.update (seq_id seq) block_table bt)"

definition allocate :: "BlockSpaceManager \<Rightarrow> SequenceGroup \<Rightarrow> error + BlockSpaceManager" where
  "allocate s seq_group =
     (case seqs seq_group of [] \<Rightarrow> Inl IndexError
      | seq # _ \<Rightarrow>
        (case allocate_blocks (length (logical_token_blocks seq)) (num_seqs seq_group None) [] s of
           Inl e \<Rightarrow> Inl e
         | Inr (block_table, s1) \<Rightarrow>
             Inr (s1\<lparr>block_tables := assign_tables (seqs seq_group) block_table (block_tables s1)\<rparr>)))"

definition can_append :: "BlockSpaceManager \<Rightarrow> SequenceGroup \<Rightarrow> bool" where
  "can_append s seq_group =
     (num_seqs seq_group (Some RUNNING) \<le> get_num_free_blocks (gpu_allocator s))"

text \<open>
  \<^verbatim>\<open>append\<close>.  The table is a list object held by the dictionary, so changing it in place
  is an update of the dictionary at the same key.  \<^verbatim>\<open>block_table[-1]\<close> on an empty table
  raises IndexError.
\<close>

definition append_slot ::
  "BlockSpaceManager \<Rightarrow> Sequence \<Rightarrow> error + ((nat \<times> nat) option \<times> BlockSpaceManager)" where
  "append_slot s seq =
     (case map_of (block_tables s) (seq_id seq) of None \<Rightarrow> Inl KeyError
      | Some block_table \<Rightarrow>
        if length block_table < length (logical_token_blocks seq) then
          (case allocate_on GPU s of Inl e \<Rightarrow> Inl e
           | Inr (block, s1) \<Rightarrow>
               Inr (None, s1\<lparr>block_tables :=
                             AList.update (seq_id seq) (block_table @ [block]) (block_tables s1)\<rparr>))
        else if block_table = [] then Inl IndexError
        else
          let last_block = last block_table in
          if device last_block \<noteq> GPU then Inl AssertionError
          else if ref_count s last_block = 1 then Inr (None, s)
          else
            (case allocate_on GPU s of Inl e \<Rightarrow> Inl e
             | Inr (new_block, s1) \<Rightarrow>
               (case free_on GPU
                       (s1\<lparr>block_tables :=
                            AList.update (seq_id seq) (butlast block_table @ [new_block])
                              (block_tables s1)\<rparr>)
                       last_block of
                  Inl e \<Rightarrow> Inl e
                | Inr s2 \<Rightarrow> Inr (Some (block_number last_block, block_number new_block), s2))))"

definition fork :: "BlockSpaceManager \<Rightarrow> Sequence \<Rightarrow> Sequence \<Rightarrow> error + BlockSpaceManager" where
  "fork s parent_seq child_seq =
     (case map_of (block_tables s) (seq_id parent_seq) of None \<Rightarrow> Inl KeyError
      | Some src_block_table \<Rightarrow>
          Inr (s\<lparr>block_tables := AList.update (seq_id child_seq) src_block_table (block_tables s),
                 ref_count := fold (\<lambda>block rc. rc(block := rc block + 1)) src_block_table
                                (ref_count s)\<rparr>))"

text \<open>
  \<^verbatim>\<open>_get_physical_blocks\<close> builds a Python set and returns it as a list; its callers read
  the length only.  The model returns the blocks without repetition.
\<close>

fun get_physical_blocks_loop ::
  "(int \<times> BlockTable) list \<Rightarrow> Sequence list \<Rightarrow> PhysicalTokenBlock list
     \<Rightarrow> error + PhysicalTokenBlock list" where
  "get_physical_blocks_loop bt [] blocks = Inr blocks"
| "get_physical_blocks_loop bt (seq # rest) blocks =
     (if status seq = FINISHED then get_physical_blocks_loop bt rest blocks
      else case map_of bt (seq_id seq) of None \<Rightarrow> Inl KeyError
           | Some block_table \<Rightarrow>
               get_physical_blocks_loop bt rest (fold List.insert block_table blocks))"

definition get_physical_blocks ::
  "BlockSpaceManager \<Rightarrow> SequenceGroup \<Rightarrow> error + PhysicalTokenBlock list" where
  "get_physical_blocks s seq_group =
     get_physical_blocks_loop (block_tables s) (seqs seq_group) []"

definition can_swap_in :: "BlockSpaceManager \<Rightarrow> SequenceGroup \<Rightarrow> error + bool" where
  "can_swap_in s seq_group =
     (case get_physical_blocks s seq_group of Inl e \<Rightarrow> Inl e
      | Inr blocks \<Rightarrow>
          Inr (length blocks + num_seqs seq_group (Some SWAPPED)
                 \<le> get_num_free_blocks (gpu_allocator s)))"

definition can_swap_out :: "BlockSpaceManager \<Rightarrow> SequenceGroup \<Rightarrow> error + bool" where
  "can_swap_out s seq_group =
     (case get_physical_blocks s seq_group of Inl e \<Rightarrow> Inl e
      | Inr blocks \<Rightarrow> Inr (length blocks \<le> get_num_free_blocks (cpu_allocator s)))"

text \<open>
  \<^verbatim>\<open>swap_in\<close> and \<^verbatim>\<open>swap_out\<close> are the same text with the two allocators exchanged, so the
  two loops take the tier that is left (\<open>src\<close>) and the tier that is entered (\<open>dst\<close>) as
  parameters: \<^verbatim>\<open>swap_in\<close> is \<open>src = CPU\<close>, \<open>dst = GPU\<close> and \<^verbatim>\<open>swap_out\<close> the reverse.
  \<open>mapping\<close> is the dictionary from old block to new block.
\<close>

fun swap_table ::
  "Device \<Rightarrow> Device \<Rightarrow> BlockTable
     \<Rightarrow> (PhysicalTokenBlock \<times> PhysicalTokenBlock) list \<times> BlockTable \<times> BlockSpaceManager
     \<Rightarrow> error + ((PhysicalTokenBlock \<times> PhysicalTokenBlock) list \<times> BlockTable \<times> BlockSpaceManager)" where
  "swap_table src dst [] acc = Inr acc"
| "swap_table src dst (old_block # rest) (mapping, new_block_table, s) =
     (case (case map_of mapping old_block of
              Some new_block \<Rightarrow>
                Inr (new_block, mapping,
                     s\<lparr>ref_count := (ref_count s)(new_block := ref_count s new_block + 1)\<rparr>)
            | None \<Rightarrow>
                (case allocate_on dst s of Inl e \<Rightarrow> Inl e
                 | Inr (new_block, s1) \<Rightarrow>
                     Inr (new_block, AList.update old_block new_block mapping, s1))) of
        Inl e \<Rightarrow> Inl e
      | Inr (new_block, mapping', s1) \<Rightarrow>
          (case free_on src s1 old_block of Inl e \<Rightarrow> Inl e
           | Inr s2 \<Rightarrow> swap_table src dst rest (mapping', new_block_table @ [new_block], s2)))"

fun swap_seqs ::
  "Device \<Rightarrow> Device \<Rightarrow> Sequence list
     \<Rightarrow> (PhysicalTokenBlock \<times> PhysicalTokenBlock) list \<Rightarrow> BlockSpaceManager
     \<Rightarrow> error + ((PhysicalTokenBlock \<times> PhysicalTokenBlock) list \<times> BlockSpaceManager)" where
  "swap_seqs src dst [] mapping s = Inr (mapping, s)"
| "swap_seqs src dst (seq # rest) mapping s =
     (if status seq = FINISHED then swap_seqs src dst rest mapping s
      else case map_of (block_tables s) (seq_id seq) of None \<Rightarrow> Inl KeyError
           | Some block_table \<Rightarrow>
             (case swap_table src dst block_table (mapping, [], s) of Inl e \<Rightarrow> Inl e
              | Inr (mapping', new_block_table, s1) \<Rightarrow>
                  swap_seqs src dst rest mapping'
                    (s1\<lparr>block_tables :=
                         AList.update (seq_id seq) new_block_table (block_tables s1)\<rparr>)))"

definition block_number_mapping ::
  "(PhysicalTokenBlock \<times> PhysicalTokenBlock) list \<Rightarrow> (nat \<times> nat) list" where
  "block_number_mapping mapping =
     fold (\<lambda>(old_block, new_block). AList.update (block_number old_block) (block_number new_block))
       mapping []"

definition swap_in ::
  "BlockSpaceManager \<Rightarrow> SequenceGroup \<Rightarrow> error + ((nat \<times> nat) list \<times> BlockSpaceManager)" where
  "swap_in s seq_group =
     (case swap_seqs CPU GPU (seqs seq_group) [] s of Inl e \<Rightarrow> Inl e
      | Inr (mapping, s1) \<Rightarrow> Inr (block_number_mapping mapping, s1))"

definition swap_out ::
  "BlockSpaceManager \<Rightarrow> SequenceGroup \<Rightarrow> error + ((nat \<times> nat) list \<times> BlockSpaceManager)" where
  "swap_out s seq_group =
     (case swap_seqs GPU CPU (seqs seq_group) [] s of Inl e \<Rightarrow> Inl e
      | Inr (mapping, s1) \<Rightarrow> Inr (block_number_mapping mapping, s1))"

fun free_block_table :: "BlockSpaceManager \<Rightarrow> BlockTable \<Rightarrow> error + BlockSpaceManager" where
  "free_block_table s [] = Inr s"
| "free_block_table s (block # rest) =
     (case (if device block = GPU then free_on GPU s block else free_on CPU s block) of
        Inl e \<Rightarrow> Inl e
      | Inr s1 \<Rightarrow> free_block_table s1 rest)"

definition free :: "BlockSpaceManager \<Rightarrow> Sequence \<Rightarrow> error + BlockSpaceManager" where
  "free s seq =
     (case map_of (block_tables s) (seq_id seq) of None \<Rightarrow> Inl KeyError
      | Some block_table \<Rightarrow>
        (case free_block_table s block_table of Inl e \<Rightarrow> Inl e
         | Inr s1 \<Rightarrow> Inr (s1\<lparr>block_tables := AList.delete (seq_id seq) (block_tables s1)\<rparr>)))"

fun free_block_tables :: "BlockSpaceManager \<Rightarrow> BlockTable list \<Rightarrow> error + BlockSpaceManager" where
  "free_block_tables s [] = Inr s"
| "free_block_tables s (block_table # rest) =
     (case free_block_table s block_table of Inl e \<Rightarrow> Inl e
      | Inr s1 \<Rightarrow> free_block_tables s1 rest)"

definition reset :: "BlockSpaceManager \<Rightarrow> error + BlockSpaceManager" where
  "reset s =
     (case free_block_tables s (map snd (block_tables s)) of Inl e \<Rightarrow> Inl e
      | Inr s1 \<Rightarrow> Inr (s1\<lparr>block_tables := []\<rparr>))"

definition get_block_table :: "BlockSpaceManager \<Rightarrow> Sequence \<Rightarrow> error + nat list" where
  "get_block_table s seq =
     (case map_of (block_tables s) (seq_id seq) of None \<Rightarrow> Inl KeyError
      | Some block_table \<Rightarrow> Inr (map block_number block_table))"

section \<open>The scheduler\<close>

text \<open>
  Modelled from the spec: \<^verbatim>\<open>cacheflow/sampling_params.py\<close> is not among the sources.
  The sampling parameters carry "at least \<open>stop_token_ids\<close> and \<open>max_num_steps\<close>"; the
  scheduler's \<^verbatim>\<open>step\<close> only stores them.
\<close>

record SamplingParams =
  stop_token_ids :: "int list"
  max_num_steps :: int

text \<open>
  The scheduler's state.  The frontend and the controllers are outside the repository's
  core: what \<^verbatim>\<open>frontend.get_inputs()\<close> returns is a parameter of \<open>step\<close>, and what is handed
  to \<^verbatim>\<open>controllers[0].execute_stage\<close> is the \<open>StepPlan\<close> that \<open>step\<close> returns.

  Sequences and groups are Python objects that the queues share by reference.  The model
  holds them by value: a group whose sequences change status is stored, changed, in the
  queue it is appended to.  This is the same as long as a group object is in one queue at
  a time and no sequence object is in two groups, which is how the frontend builds them;
  within \<open>step\<close>, a group changed by \<^verbatim>\<open>_swap_out\<close> is never read again through
  \<^verbatim>\<open>self.running\<close>, which is cut back to the groups before it at the end of phase 1.
\<close>

record Scheduler =
  block_manager :: BlockSpaceManager
  running :: "SequenceGroup list"
  num_steps :: "(int \<times> int) list"
  sampling_params :: "(int \<times> SamplingParams) list"
  swapped :: "SequenceGroup list"
  pending :: "SequenceGroup list"

record StepPlan =
  prompt_tokens :: "(int \<times> int list) list"
  generation_tokens :: "(int \<times> int) list"
  context_lens :: "(int \<times> nat) list"
  plan_block_tables :: "(int \<times> nat list) list"
  blocks_to_swap_in :: "(nat \<times> nat) list"
  blocks_to_swap_out :: "(nat \<times> nat) list"
  blocks_to_copy :: "(nat \<times> nat) list"

definition MAX_NUM_BATCHED_TOKENS :: nat where
  "MAX_NUM_BATCHED_TOKENS = 2048"

text \<open>Python's \<^verbatim>\<open>xs[i]\<close> and \<^verbatim>\<open>xs[:k]\<close> for an integer that may be negative.\<close>

definition py_index :: "'a list \<Rightarrow> int \<Rightarrow> error + 'a" where
  "py_index xs i =
     (if 0 \<le> i \<and> i < int (length xs) then Inr (xs ! nat i)
      else if i < 0 \<and> - int (length xs) \<le> i then Inr (xs ! nat (int (length xs) + i))
      else Inl IndexError)"

definition py_slice_to :: "'a list \<Rightarrow> int \<Rightarrow> 'a list" where
  "py_slice_to xs k = (if 0 \<le> k then take (nat k) xs else take (length xs - nat (- k)) xs)"

text \<open>\<^verbatim>\<open>d.update(mapping)\<close>: the items of \<open>mapping\<close> are assigned in order.\<close>

definition dict_update :: "('k \<times> 'v) list \<Rightarrow> ('k \<times> 'v) list \<Rightarrow> ('k \<times> 'v) list" where
  "dict_update d mapping = fold (\<lambda>(k, v). AList.update k v) mapping d"

definition Scheduler_init :: "nat \<Rightarrow> nat \<Rightarrow> nat \<Rightarrow> error + Scheduler" where
  "Scheduler_init bsize num_gpu_blocks num_cpu_blocks =
     (case BlockSpaceManager_init bsize num_gpu_blocks num_cpu_blocks of Inl e \<Rightarrow> Inl e
      | Inr bm \<Rightarrow>
          Inr \<lparr>block_manager = bm, running = [], num_steps = [], sampling_params = [],
               swapped = [], pending = []\<rparr>)"

fun fetch_inputs :: "Scheduler \<Rightarrow> (SequenceGroup \<times> SamplingParams) list \<Rightarrow> Scheduler" where
  "fetch_inputs sch [] = sch"
| "fetch_inputs sch ((seq_group, params) # rest) =
     fetch_inputs
       (sch\<lparr>pending := pending sch @ [seq_group],
            sampling_params := AList.update (group_id seq_group) params (sampling_params sch)\<rparr>)
       rest"

definition set_all_status :: "SequenceStatus \<Rightarrow> SequenceGroup \<Rightarrow> SequenceGroup" where
  "set_all_status st seq_group =
     seq_group\<lparr>seqs := map (\<lambda>seq. seq\<lparr>status := st\<rparr>) (seqs seq_group)\<rparr>"

definition change_status :: "SequenceStatus \<Rightarrow> SequenceStatus \<Rightarrow> SequenceGroup \<Rightarrow> SequenceGroup" where
  "change_status old new seq_group =
     seq_group\<lparr>seqs := map (\<lambda>seq. if status seq = old then seq\<lparr>status := new\<rparr> else seq)
                         (seqs seq_group)\<rparr>"

definition Scheduler_allocate :: "Scheduler \<Rightarrow> SequenceGroup \<Rightarrow> error + Scheduler" where
  "Scheduler_allocate sch seq_group =
     (case allocate (block_manager sch) seq_group of Inl e \<Rightarrow> Inl e
      | Inr bm \<Rightarrow>
          Inr (sch\<lparr>block_manager := bm,
                   running := running sch @ [set_all_status RUNNING seq_group],
                   num_steps := AList.update (group_id seq_group) 0 (num_steps sch)\<rparr>))"

fun Scheduler_append_loop ::
  "Sequence list \<Rightarrow> (nat \<times> nat) list \<Rightarrow> BlockSpaceManager
     \<Rightarrow> error + ((nat \<times> nat) list \<times> BlockSpaceManager)" where
  "Scheduler_append_loop [] btc bm = Inr (btc, bm)"
| "Scheduler_append_loop (seq # rest) btc bm =
     (if status seq = FINISHED then Scheduler_append_loop rest btc bm
      else case append_slot bm seq of Inl e \<Rightarrow> Inl e
           | Inr (None, bm1) \<Rightarrow> Scheduler_append_loop rest btc bm1
           | Inr (Some (src_block, dst_block), bm1) \<Rightarrow>
               Scheduler_append_loop rest (AList.update src_block dst_block btc) bm1)"

definition Scheduler_append ::
  "Scheduler \<Rightarrow> SequenceGroup \<Rightarrow> (nat \<times> nat) list \<Rightarrow> error + (Scheduler \<times> (nat \<times> nat) list)" where
  "Scheduler_append sch seq_group btc =
     (case Scheduler_append_loop (seqs seq_group) btc (block_manager sch) of Inl e \<Rightarrow> Inl e
      | Inr (btc1, bm) \<Rightarrow> Inr (sch\<lparr>block_manager := bm\<rparr>, btc1))"

definition Scheduler_swap_in ::
  "Scheduler \<Rightarrow> SequenceGroup \<Rightarrow> (nat \<times> nat) list
     \<Rightarrow> error + (SequenceGroup \<times> Scheduler \<times> (nat \<times> nat) list)" where
  "Scheduler_swap_in sch seq_group bsi =
     (case swap_in (block_manager sch) seq_group of Inl e \<Rightarrow> Inl e
      | Inr (mapping, bm) \<Rightarrow>
          let g = change_status SWAPPED RUNNING seq_group
          in Inr (g, sch\<lparr>block_manager := bm, running := running sch @ [g]\<rparr>,
                  dict_update bsi mapping))"

definition Scheduler_swap_out ::
  "Scheduler \<Rightarrow> SequenceGroup \<Rightarrow> (nat \<times> nat) list \<Rightarrow> error + (Scheduler \<times> (nat \<times> nat) list)" where
  "Scheduler_swap_out sch seq_group bso =
     (case can_swap_out (block_manager sch) seq_group of Inl e \<Rightarrow> Inl e
      | Inr ok \<Rightarrow>
        if \<not> ok then Inl AssertionError
        else
          (case swap_out (block_manager sch) seq_group of Inl e \<Rightarrow> Inl e
           | Inr (mapping, bm) \<Rightarrow>
               Inr (sch\<lparr>block_manager := bm,
                        swapped := swapped sch @ [change_status RUNNING SWAPPED seq_group]\<rparr>,
                    dict_update bso mapping)))"

text \<open>
  Phase 1 of \<^verbatim>\<open>step\<close>.  \<open>preempt_loop\<close> is the \<^verbatim>\<open>while\<close> loop for the group at index \<open>i\<close>;
  its first result says whether the loop ended by its condition (then the \<^verbatim>\<open>else\<close> branch
  runs \<^verbatim>\<open>_append\<close>) or by \<^verbatim>\<open>break\<close>.  \<open>reserve_loop\<close> is the \<^verbatim>\<open>for\<close> loop over the list
  that \<^verbatim>\<open>self.running\<close> holds when the loop starts.
\<close>

function preempt_loop ::
  "nat \<Rightarrow> SequenceGroup \<Rightarrow> int \<Rightarrow> Scheduler \<Rightarrow> (nat \<times> nat) list
     \<Rightarrow> error + (bool \<times> int \<times> Scheduler \<times> (nat \<times> nat) list)" where
  "preempt_loop i seq_group victim_idx sch bso =
     (if can_append (block_manager sch) seq_group then Inr (True, victim_idx, sch, bso)
      else case py_index (running sch) victim_idx of Inl e \<Rightarrow> Inl e
           | Inr victim_seq_group \<Rightarrow>
             (case Scheduler_swap_out sch victim_seq_group bso of Inl e \<Rightarrow> Inl e
              | Inr (sch1, bso1) \<Rightarrow>
                  if int i > victim_idx - 1 then Inr (False, victim_idx - 1, sch1, bso1)
                  else preempt_loop i seq_group (victim_idx - 1) sch1 bso1))"
  by pat_completeness auto
termination
  by (relation "measure (\<lambda>(i, seq_group, victim_idx, sch, bso). nat (victim_idx - int i))") auto

declare preempt_loop.simps [simp del]

fun reserve_loop ::
  "SequenceGroup list \<Rightarrow> nat \<Rightarrow> int \<Rightarrow> Scheduler \<Rightarrow> (nat \<times> nat) list \<Rightarrow> (nat \<times> nat) list
     \<Rightarrow> error + (int \<times> Scheduler \<times> (nat \<times> nat) list \<times> (nat \<times> nat) list)" where
  "reserve_loop [] i victim_idx sch bso btc = Inr (victim_idx, sch, bso, btc)"
| "reserve_loop (seq_group # rest) i victim_idx sch bso btc =
     (if int i > victim_idx then Inr (victim_idx, sch, bso, btc)
      else case preempt_loop i seq_group victim_idx sch bso of Inl e \<Rightarrow> Inl e
           | Inr (completed, victim_idx1, sch1, bso1) \<Rightarrow>
               if completed then
                 (case Scheduler_append sch1 seq_group btc of Inl e \<Rightarrow> Inl e
                  | Inr (sch2, btc1) \<Rightarrow> reserve_loop rest (Suc i) victim_idx1 sch2 bso1 btc1)
               else reserve_loop rest (Suc i) victim_idx1 sch1 bso1 btc)"

definition phase1 ::
  "Scheduler \<Rightarrow> error + (Scheduler \<times> (nat \<times> nat) list \<times> (nat \<times> nat) list)" where
  "phase1 sch =
     (case reserve_loop (running sch) 0 (int (length (running sch)) - 1) sch [] [] of
        Inl e \<Rightarrow> Inl e
      | Inr (victim_idx, sch1, bso, btc) \<Rightarrow>
          Inr (sch1\<lparr>running := py_slice_to (running sch1) (victim_idx + 1)\<rparr>, bso, btc))"

text \<open>
  Phase 2: the loop over \<^verbatim>\<open>reversed(self.swapped)\<close>.  \<^verbatim>\<open>_append\<close> gets the group as
  \<^verbatim>\<open>_swap_in\<close> left it.
\<close>

fun swap_in_loop ::
  "SequenceGroup list \<Rightarrow> nat \<Rightarrow> Scheduler \<Rightarrow> (nat \<times> nat) list \<Rightarrow> (nat \<times> nat) list
     \<Rightarrow> error + (Scheduler \<times> (nat \<times> nat) list \<times> (nat \<times> nat) list)" where
  "swap_in_loop [] i sch bsi btc = Inr (sch\<lparr>swapped := []\<rparr>, bsi, btc)"
| "swap_in_loop (seq_group # rest) i sch bsi btc =
     (case can_swap_in (block_manager sch) seq_group of Inl e \<Rightarrow> Inl e
      | Inr ok \<Rightarrow>
        if ok then
          (case Scheduler_swap_in sch seq_group bsi of Inl e \<Rightarrow> Inl e
           | Inr (g, sch1, bsi1) \<Rightarrow>
             (case Scheduler_append sch1 g btc of Inl e \<Rightarrow> Inl e
              | Inr (sch2, btc1) \<Rightarrow> swap_in_loop rest (Suc i) sch2 bsi1 btc1))
        else Inr (sch\<lparr>swapped := take (length (swapped sch) - i) (swapped sch)\<rparr>, bsi, btc))"

definition phase2 ::
  "Scheduler \<Rightarrow> (nat \<times> nat) list
     \<Rightarrow> error + (Scheduler \<times> (nat \<times> nat) list \<times> (nat \<times> nat) list)" where
  "phase2 sch btc = swap_in_loop (rev (swapped sch)) 0 sch [] btc"

text \<open>
  Phase 3: the loop over \<^verbatim>\<open>self.pending\<close>, with the running count of batched tokens.
\<close>

fun join_loop :: "SequenceGroup list \<Rightarrow> nat \<Rightarrow> nat \<Rightarrow> Scheduler \<Rightarrow> error + Scheduler" where
  "join_loop [] i num_batched_tokens sch = Inr (sch\<lparr>pending := []\<rparr>)"
| "join_loop (seq_group # rest) i num_batched_tokens sch =
     (case seqs seq_group of [] \<Rightarrow> Inl IndexError
      | seq # _ \<Rightarrow>
        (case can_allocate (block_manager sch) seq_group of Inl e \<Rightarrow> Inl e
         | Inr ok \<Rightarrow>
           if ok \<and> num_batched_tokens + get_len seq \<le> MAX_NUM_BATCHED_TOKENS then
             (case Scheduler_allocate sch seq_group of Inl e \<Rightarrow> Inl e
              | Inr sch1 \<Rightarrow> join_loop rest (Suc i) (num_batched_tokens + get_len seq) sch1)
           else Inr (sch\<lparr>pending := drop i (pending sch)\<rparr>)))"

definition count_running_tokens :: "Scheduler \<Rightarrow> nat" where
  "count_running_tokens sch =
     sum_list (map (\<lambda>seq_group. num_seqs seq_group (Some RUNNING)) (running sch))"

definition phase3 ::
  "Scheduler \<Rightarrow> (SequenceGroup \<times> SamplingParams) list \<Rightarrow> nat \<Rightarrow> error + Scheduler" where
  "phase3 sch inputs num_batched_tokens =
     (if swapped sch = [] then
        join_loop (pending (fetch_inputs sch inputs)) 0 num_batched_tokens (fetch_inputs sch inputs)
      else Inr sch)"

text \<open>Phase 4: the inputs of the model, one entry per running sequence of a running group.\<close>

fun plan_seqs :: "BlockSpaceManager \<Rightarrow> bool \<Rightarrow> Sequence list \<Rightarrow> StepPlan \<Rightarrow> error + StepPlan" where
  "plan_seqs bm is_prompt [] plan = Inr plan"
| "plan_seqs bm is_prompt (seq # rest) plan =
     (if status seq \<noteq> RUNNING then plan_seqs bm is_prompt rest plan
      else case get_block_table bm seq of Inl e \<Rightarrow> Inl e
           | Inr table \<Rightarrow>
             let plan1 = plan\<lparr>plan_block_tables :=
                                AList.update (seq_id seq) table (plan_block_tables plan)\<rparr>
             in if is_prompt then
                  plan_seqs bm is_prompt rest
                    (plan1\<lparr>prompt_tokens :=
                             AList.update (seq_id seq) (get_token_ids seq) (prompt_tokens plan1)\<rparr>)
                else if get_token_ids seq = [] then Inl IndexError
                else
                  plan_seqs bm is_prompt rest
                    (plan1\<lparr>generation_tokens :=
                             AList.update (seq_id seq) (last (get_token_ids seq))
                               (generation_tokens plan1),
                           context_lens :=
                             AList.update (seq_id seq) (get_len seq) (context_lens plan1)\<rparr>))"

fun plan_groups :: "Scheduler \<Rightarrow> SequenceGroup list \<Rightarrow> StepPlan \<Rightarrow> error + StepPlan" where
  "plan_groups sch [] plan = Inr plan"
| "plan_groups sch (seq_group # rest) plan =
     (case map_of (num_steps sch) (group_id seq_group) of None \<Rightarrow> Inl KeyError
      | Some n \<Rightarrow>
        (case plan_seqs (block_manager sch) (n = 0) (seqs seq_group) plan of Inl e \<Rightarrow> Inl e
         | Inr plan1 \<Rightarrow> plan_groups sch rest plan1))"

text \<open>
  The state and the three maps when phase 3 has ended, before the assertion: phases 1 to 3
  of \<^verbatim>\<open>step\<close>.
\<close>

definition phases_1_to_3 ::
  "Scheduler \<Rightarrow> (SequenceGroup \<times> SamplingParams) list
     \<Rightarrow> error + (Scheduler \<times> (nat \<times> nat) list \<times> (nat \<times> nat) list \<times> (nat \<times> nat) list)" where
  "phases_1_to_3 sch inputs =
     (case phase1 sch of Inl e \<Rightarrow> Inl e
      | Inr (sch1, bso, btc) \<Rightarrow>
        (case phase2 sch1 btc of Inl e \<Rightarrow> Inl e
         | Inr (sch2, bsi, btc1) \<Rightarrow>
           (case phase3 sch2 inputs (count_running_tokens sch2) of Inl e \<Rightarrow> Inl e
            | Inr sch3 \<Rightarrow> Inr (sch3, bsi, bso, btc1))))"

definition step ::
  "Scheduler \<Rightarrow> (SequenceGroup \<times> SamplingParams) list \<Rightarrow> error + (StepPlan \<times> Scheduler)" where
  "step sch inputs =
     (case phases_1_to_3 sch inputs of Inl e \<Rightarrow> Inl e
      | Inr (sch3, bsi, bso, btc) \<Rightarrow>
        if bsi \<noteq> [] \<and> bso \<noteq> [] then Inl AssertionError
        else
          (case plan_groups sch3 (running sch3)
                  \<lparr>prompt_tokens = [], generation_tokens = [], context_lens = [],
                   plan_block_tables = [], blocks_to_swap_in = bsi, blocks_to_swap_out = bso,
                   blocks_to_copy = btc\<rparr> of
             Inl e \<Rightarrow> Inl e
           | Inr plan \<Rightarrow> Inr (plan, sch3)))"

section \<open>Specification predicates\<close>

text \<open>
  The definitions of this section are not code of the repository: they state the
  properties that the theorems below prove about it.

  \<open>refs bt b\<close> counts the block-table entries that reference block \<open>b\<close>, over all
  sequences that have a table.  A block belongs to the pool of its tier when its number
  is below the allocator's \<open>num_blocks\<close>; \<open>free_list d s\<close> is the free list of tier \<open>d\<close>.
\<close>

definition refs :: "(int \<times> BlockTable) list \<Rightarrow> PhysicalTokenBlock \<Rightarrow> nat" where
  "refs bt b = sum_list (map (\<lambda>kt. count_list (snd kt) b) bt)"

definition in_pool :: "BlockSpaceManager \<Rightarrow> PhysicalTokenBlock \<Rightarrow> bool" where
  "in_pool s b = (block_number b < num_blocks (allocator (device b) s))"

definition free_list :: "Device \<Rightarrow> BlockSpaceManager \<Rightarrow> PhysicalTokenBlock list" where
  "free_list d s = free_blocks (allocator d s)"

text \<open>
  The two properties of the manager's state that the spec lists as invariants 1 and 2:
  every block's count is the number of table entries that reference it, and a pool block
  is on the free list of its own tier exactly when its count is 0.
\<close>

definition ref_counts_match :: "BlockSpaceManager \<Rightarrow> bool" where
  "ref_counts_match s = (\<forall>b. ref_count s b = int (refs (block_tables s) b))"

definition free_iff_unreferenced :: "BlockSpaceManager \<Rightarrow> bool" where
  "free_iff_unreferenced s =
     (\<forall>b. in_pool s b \<longrightarrow> (b \<in> set (free_list (device b) s)) = (ref_count s b = 0))"

text \<open>
  What else holds of every state the manager reaches and is needed to carry the two
  properties through the operations: the dictionary has one entry per key, no table
  names a block twice, a free list names no block twice and holds blocks of its own
  tier's pool only, and only pool blocks are ever referenced.
\<close>

definition tables_wf :: "(int \<times> BlockTable) list \<Rightarrow> bool" where
  "tables_wf bt = (distinct (map fst bt) \<and> (\<forall>t \<in> snd ` set bt. distinct t))"

definition pools_wf :: "BlockSpaceManager \<Rightarrow> bool" where
  "pools_wf s =
     ((\<forall>d. distinct (free_list d s) \<and> (\<forall>b \<in> set (free_list d s). device b = d \<and> in_pool s b))
      \<and> (\<forall>b. ref_count s b \<noteq> 0 \<longrightarrow> in_pool s b))"

definition manager_invariant :: "BlockSpaceManager \<Rightarrow> bool" where
  "manager_invariant s =
     (ref_counts_match s \<and> free_iff_unreferenced s \<and> tables_wf (block_tables s) \<and> pools_wf s)"

text \<open>
  Inside an operation the counts run ahead of the tables or behind them; \<open>balanced s dl\<close>
  is the invariant with the difference \<open>dl\<close> made explicit.
\<close>

definition balanced :: "BlockSpaceManager \<Rightarrow> (PhysicalTokenBlock \<Rightarrow> int) \<Rightarrow> bool" where
  "balanced s dl =
     (tables_wf (block_tables s) \<and> pools_wf s \<and> free_iff_unreferenced s
      \<and> (\<forall>b. 0 \<le> ref_count s b)
      \<and> (\<forall>b. int (refs (block_tables s) b) + dl b = ref_count s b))"

text \<open>
  For the swap operations: the sequences of a group that are not finished, the blocks of
  their tables in the order the swap loops visit them, and the call contract of a swap
  (\<open>resident d\<close>: the live sequences have distinct ids and their tables hold blocks of
  tier \<open>d\<close> only, the tier that is left).
\<close>

definition live_seqs :: "Sequence list \<Rightarrow> Sequence list" where
  "live_seqs qs = filter (\<lambda>q. status q \<noteq> FINISHED) qs"

definition group_blocks :: "(int \<times> BlockTable) list \<Rightarrow> Sequence list \<Rightarrow> PhysicalTokenBlock list" where
  "group_blocks bt qs = concat (map (\<lambda>q. the (map_of bt (seq_id q))) (live_seqs qs))"

definition resident :: "Device \<Rightarrow> (int \<times> BlockTable) list \<Rightarrow> Sequence list \<Rightarrow> bool" where
  "resident d bt qs =
     (distinct (map seq_id (live_seqs qs))
      \<and> (\<forall>q \<in> set (live_seqs qs). \<forall>t. map_of bt (seq_id q) = Some t \<longrightarrow> (\<forall>b \<in> set t. device b = d)))"

text \<open>
  The progress of a swap from the mapping \<open>m\<close> and state \<open>s\<close> to \<open>m'\<close> and \<open>s'\<close> after
  the table entries \<open>P\<close> have been visited: the mapping only grows, its new values are
  the blocks popped from the entered tier's free list, blocks pushed onto the left tier's
  free list are among \<open>P\<close>, and the counts move as the entries say.
\<close>

definition swap_inv ::
  "Device \<Rightarrow> (PhysicalTokenBlock \<times> PhysicalTokenBlock) list \<Rightarrow> BlockSpaceManager \<Rightarrow> bool" where
  "swap_inv dst m s =
     ((\<forall>x \<in> set (free_list dst s). device x = dst) \<and> distinct (free_list dst s)
      \<and> set (free_list dst s) \<inter> ran (map_of m) = {}
      \<and> (\<forall>nb \<in> ran (map_of m). device nb = dst)
      \<and> inj_on (map_of m) (dom (map_of m)))"

definition swap_rel ::
  "Device \<Rightarrow> Device \<Rightarrow> PhysicalTokenBlock list
     \<Rightarrow> (PhysicalTokenBlock \<times> PhysicalTokenBlock) list \<Rightarrow> BlockSpaceManager
     \<Rightarrow> (PhysicalTokenBlock \<times> PhysicalTokenBlock) list \<Rightarrow> BlockSpaceManager \<Rightarrow> bool" where
  "swap_rel src dst P m s m' s' =
     (map_of m \<subseteq>\<^sub>m map_of m' \<and> dom (map_of m') = dom (map_of m) \<union> set P
      \<and> (\<exists>news. free_list dst s = free_list dst s' @ rev news
                 \<and> set news = ran (map_of m') - ran (map_of m))
      \<and> (\<exists>pushed. free_list src s' = free_list src s @ pushed \<and> set pushed \<subseteq> set P)
      \<and> (\<forall>x. device x = src \<longrightarrow> ref_count s' x = ref_count s x - int (count_list P x))
      \<and> (\<forall>ob nb. map_of m' ob = Some nb \<longrightarrow>
            ref_count s' nb = (if ob \<in> dom (map_of m) then ref_count s nb else 0)
                               + int (count_list P ob))
      \<and> (\<forall>x. device x \<noteq> src \<longrightarrow> x \<notin> ran (map_of m') \<longrightarrow> ref_count s' x = ref_count s x)
      \<and> (\<forall>x. in_pool s' x = in_pool s x))"

text \<open>
  The composition that the spec's round-trip law 6 is about: \<^verbatim>\<open>swap_out(group)\<close> followed by
  \<^verbatim>\<open>swap_in(group)\<close>, returning the state after both.
\<close>

definition swap_out_then_in :: "BlockSpaceManager \<Rightarrow> SequenceGroup \<Rightarrow> error + BlockSpaceManager" where
  "swap_out_then_in s g =
     (case swap_out s g of Inl e \<Rightarrow> Inl e
      | Inr (m1, s1) \<Rightarrow> (case swap_in s1 g of Inl e \<Rightarrow> Inl e | Inr (m2, s2) \<Rightarrow> Inr s2))"

text \<open>
  Admission (phase 3).  \<open>prompt_len\<close> is the prompt length of a group, read off its first
  sequence; \<open>fits\<close> is the pair of tests a pending group has to pass, against the manager
  and the count of batched tokens of that moment; \<open>admit_all\<close> admits the groups of a list
  in order, crediting each prompt length, and gives the manager and the count after the
  last one, or nothing when one of the groups does not pass the tests at its turn.
\<close>

definition prompt_len :: "SequenceGroup \<Rightarrow> nat" where
  "prompt_len g = get_len (hd (seqs g))"

definition fits :: "BlockSpaceManager \<Rightarrow> nat \<Rightarrow> SequenceGroup \<Rightarrow> bool" where
  "fits bm n g \<longleftrightarrow>
     can_allocate bm g = Inr True \<and> n + prompt_len g \<le> MAX_NUM_BATCHED_TOKENS"

fun admit_all ::
  "BlockSpaceManager \<Rightarrow> nat \<Rightarrow> SequenceGroup list \<Rightarrow> (BlockSpaceManager \<times> nat) option" where
  "admit_all bm n [] = Some (bm, n)"
| "admit_all bm n (g # gs) =
     (if fits bm n g then
        (case allocate bm g of Inl e \<Rightarrow> None
         | Inr bm1 \<Rightarrow> admit_all bm1 (n + prompt_len g) gs)
      else None)"



section \<open>Example states\<close>

text \<open>
  Concrete inputs for the witnesses.  \<open>example_initial\<close> is the manager that
  \<^verbatim>\<open>BlockSpaceManager(8, 4, 2)\<close> builds; \<open>example_manager\<close> is that manager after a group
  with the one sequence 1 and then a group with the sequences 2 and 3 have been allocated,
  each with a prompt of one logical block.
\<close>

definition example_block :: LogicalTokenBlock where
  "example_block = \<lparr>lb_block_number = 0, lb_block_size = 8, token_ids = [11, 12, 13]\<rparr>"

definition example_seq :: "int \<Rightarrow> nat \<Rightarrow> Sequence" where
  "example_seq i n =
     \<lparr>seq_id = i, seq_block_size = 8, logical_token_blocks = replicate n example_block,
      status = RUNNING\<rparr>"

definition example_initial :: BlockSpaceManager where
  "example_initial =
     \<lparr>block_size = 8, num_total_gpu_blocks = 4, num_total_cpu_blocks = 2,
      gpu_allocator = \<lparr>bm_device = GPU, bm_block_size = 8, num_blocks = 4,
        free_blocks = [PhysicalTokenBlock GPU 0, PhysicalTokenBlock GPU 1,
                       PhysicalTokenBlock GPU 2, PhysicalTokenBlock GPU 3]\<rparr>,
      cpu_allocator = \<lparr>bm_device = CPU, bm_block_size = 8, num_blocks = 2,
        free_blocks = [PhysicalTokenBlock CPU 0, PhysicalTokenBlock CPU 1]\<rparr>,
      block_tables = [], ref_count = (\<lambda>_. 0)\<rparr>"

definition example_manager :: BlockSpaceManager where
  "example_manager =
     \<lparr>block_size = 8, num_total_gpu_blocks = 4, num_total_cpu_blocks = 2,
      gpu_allocator = \<lparr>bm_device = GPU, bm_block_size = 8, num_blocks = 4,
        free_blocks = [PhysicalTokenBlock GPU 0, PhysicalTokenBlock GPU 1]\<rparr>,
      cpu_allocator = \<lparr>bm_device = CPU, bm_block_size = 8, num_blocks = 2,
        free_blocks = [PhysicalTokenBlock CPU 0, PhysicalTokenBlock CPU 1]\<rparr>,
      block_tables = [(1, [PhysicalTokenBlock GPU 3]), (2, [PhysicalTokenBlock GPU 2]),
                      (3, [PhysicalTokenBlock GPU 2])],
      ref_count = (\<lambda>_. 0)(PhysicalTokenBlock GPU 3 := 1, PhysicalTokenBlock GPU 2 := 2)\<rparr>"

definition example_group :: SequenceGroup where
  "example_group = \<lparr>group_id = 2, seqs = [example_seq 2 1, example_seq 3 1]\<rparr>"

text \<open>
  \<open>example_shared\<close> is the manager \<^verbatim>\<open>BlockSpaceManager(8, 3, 3)\<close> after a group of two
  siblings with a one-block prompt has been allocated and each sibling has then rolled
  over to a second logical block: the siblings share device block 2 and own blocks 1 and
  0.
\<close>

definition example_shared :: BlockSpaceManager where
  "example_shared =
     \<lparr>block_size = 8, num_total_gpu_blocks = 3, num_total_cpu_blocks = 3,
      gpu_allocator = \<lparr>bm_device = GPU, bm_block_size = 8, num_blocks = 3, free_blocks = []\<rparr>,
      cpu_allocator = \<lparr>bm_device = CPU, bm_block_size = 8, num_blocks = 3,
        free_blocks = [PhysicalTokenBlock CPU 0, PhysicalTokenBlock CPU 1,
                       PhysicalTokenBlock CPU 2]\<rparr>,
      block_tables = [(1, [PhysicalTokenBlock GPU 2, PhysicalTokenBlock GPU 1]),
                      (2, [PhysicalTokenBlock GPU 2, PhysicalTokenBlock GPU 0])],
      ref_count = (\<lambda>_. 0)(PhysicalTokenBlock GPU 2 := 2, PhysicalTokenBlock GPU 1 := 1,
                             PhysicalTokenBlock GPU 0 := 1)\<rparr>"

definition example_pair :: SequenceGroup where
  "example_pair = \<lparr>group_id = 1, seqs = [example_seq 1 2, example_seq 2 2]\<rparr>"


text \<open>
  Scheduler states.  \<open>example_scheduler\<close> is \<^verbatim>\<open>Scheduler(frontend, controllers, 8, 4, 4)\<close>
  after two calls of \<^verbatim>\<open>step\<close>, each followed by \<^verbatim>\<open>post_step\<close>: the first call admitted
  group 1 (the siblings 1 and 2) and group 2 (the sequence 3), each with a prompt of one
  logical block; the second call copied the block the siblings shared.  One device block
  is free.  \<open>example_beam\<close> is \<^verbatim>\<open>Scheduler(frontend, controllers, 8, 4, 2)\<close> after one
  call of \<^verbatim>\<open>step\<close> that admitted a group of three siblings, and \<^verbatim>\<open>post_step\<close>.
\<close>

definition example_params :: SamplingParams where
  "example_params = \<lparr>stop_token_ids = [], max_num_steps = 16\<rparr>"

definition example_scheduler :: Scheduler where
  "example_scheduler =
     \<lparr>block_manager =
        \<lparr>block_size = 8, num_total_gpu_blocks = 4, num_total_cpu_blocks = 4,
         gpu_allocator = \<lparr>bm_device = GPU, bm_block_size = 8, num_blocks = 4,
           free_blocks = [PhysicalTokenBlock GPU 0]\<rparr>,
         cpu_allocator = \<lparr>bm_device = CPU, bm_block_size = 8, num_blocks = 4,
           free_blocks = [PhysicalTokenBlock CPU 0, PhysicalTokenBlock CPU 1,
                          PhysicalTokenBlock CPU 2, PhysicalTokenBlock CPU 3]\<rparr>,
         block_tables = [(1, [PhysicalTokenBlock GPU 1]), (2, [PhysicalTokenBlock GPU 3]),
                         (3, [PhysicalTokenBlock GPU 2])],
         ref_count = (\<lambda>_. 0)(PhysicalTokenBlock GPU 3 := 1, PhysicalTokenBlock GPU 2 := 1,
                                PhysicalTokenBlock GPU 1 := 1)\<rparr>,
      running = [\<lparr>group_id = 1, seqs = [example_seq 1 1, example_seq 2 1]\<rparr>,
                 \<lparr>group_id = 2, seqs = [example_seq 3 1]\<rparr>],
      num_steps = [(1, 2), (2, 2)],
      sampling_params = [(1, example_params), (2, example_params)],
      swapped = [], pending = []\<rparr>"

definition example_trio :: SequenceGroup where
  "example_trio = \<lparr>group_id = 1, seqs = [example_seq 1 1, example_seq 2 1, example_seq 3 1]\<rparr>"

definition example_beam :: Scheduler where
  "example_beam =
     \<lparr>block_manager =
        \<lparr>block_size = 8, num_total_gpu_blocks = 4, num_total_cpu_blocks = 2,
         gpu_allocator = \<lparr>bm_device = GPU, bm_block_size = 8, num_blocks = 4,
           free_blocks = [PhysicalTokenBlock GPU 0, PhysicalTokenBlock GPU 1,
                          PhysicalTokenBlock GPU 2]\<rparr>,
         cpu_allocator = \<lparr>bm_device = CPU, bm_block_size = 8, num_blocks = 2,
           free_blocks = [PhysicalTokenBlock CPU 0, PhysicalTokenBlock CPU 1]\<rparr>,
         block_tables = [(1, [PhysicalTokenBlock GPU 3]), (2, [PhysicalTokenBlock GPU 3]),
                         (3, [PhysicalTokenBlock GPU 3])],
         ref_count = (\<lambda>_. 0)(PhysicalTokenBlock GPU 3 := 3)\<rparr>,
      running = [example_trio], num_steps = [(1, 1)],
      sampling_params = [(1, example_params)],
      swapped = [], pending = []\<rparr>"

text \<open>
  \<open>example_full\<close> is \<^verbatim>\<open>Scheduler(frontend, controllers, 8, 4, 4)\<close> after a first step
  that admitted the three siblings of \<open>example_trio\<close> and a second step in which two of
  them got a copy of the shared block and a new group 2 (the sequence 4) was admitted:
  no device block is free.  \<open>example_idle\<close> is the new scheduler
  \<^verbatim>\<open>Scheduler(frontend, controllers, 8, 4, 2)\<close>, and \<open>example_inputs\<close> are three requests:
  prompts of one, two and two logical blocks.
\<close>

definition example_full :: Scheduler where
  "example_full =
     \<lparr>block_manager =
        \<lparr>block_size = 8, num_total_gpu_blocks = 4, num_total_cpu_blocks = 4,
         gpu_allocator = \<lparr>bm_device = GPU, bm_block_size = 8, num_blocks = 4,
           free_blocks = []\<rparr>,
         cpu_allocator = \<lparr>bm_device = CPU, bm_block_size = 8, num_blocks = 4,
           free_blocks = [PhysicalTokenBlock CPU 0, PhysicalTokenBlock CPU 1,
                          PhysicalTokenBlock CPU 2, PhysicalTokenBlock CPU 3]\<rparr>,
         block_tables = [(1, [PhysicalTokenBlock GPU 2]), (2, [PhysicalTokenBlock GPU 1]),
                         (3, [PhysicalTokenBlock GPU 3]), (4, [PhysicalTokenBlock GPU 0])],
         ref_count = (\<lambda>_. 0)(PhysicalTokenBlock GPU 3 := 1, PhysicalTokenBlock GPU 2 := 1,
                                PhysicalTokenBlock GPU 1 := 1, PhysicalTokenBlock GPU 0 := 1)\<rparr>,
      running = [example_trio, \<lparr>group_id = 2, seqs = [example_seq 4 1]\<rparr>],
      num_steps = [(1, 2), (2, 1)],
      sampling_params = [(1, example_params), (2, example_params)],
      swapped = [], pending = []\<rparr>"

definition example_idle :: Scheduler where
  "example_idle =
     \<lparr>block_manager = example_initial, running = [], num_steps = [], sampling_params = [],
      swapped = [], pending = []\<rparr>"

definition example_prompt :: "int \<Rightarrow> nat \<Rightarrow> Sequence" where
  "example_prompt i n = (example_seq i n)\<lparr>status := PENDING\<rparr>"

definition example_inputs :: "(SequenceGroup \<times> SamplingParams) list" where
  "example_inputs =
     [(\<lparr>group_id = 1, seqs = [example_prompt 1 1]\<rparr>, example_params),
      (\<lparr>group_id = 2, seqs = [example_prompt 2 2, example_prompt 3 2]\<rparr>, example_params),
      (\<lparr>group_id = 3, seqs = [example_prompt 4 2]\<rparr>, example_params)]"

text \<open>
  \<open>example_copied\<close> is \<open>example_beam\<close> after one more call of \<^verbatim>\<open>step\<close> and \<^verbatim>\<open>post_step\<close>:
  two of the three siblings have a copy of the block they shared, one device block is
  free, and the host tier has its two blocks free.
\<close>

definition example_copied :: Scheduler where
  "example_copied =
     \<lparr>block_manager =
        \<lparr>block_size = 8, num_total_gpu_blocks = 4, num_total_cpu_blocks = 2,
         gpu_allocator = \<lparr>bm_device = GPU, bm_block_size = 8, num_blocks = 4,
           free_blocks = [PhysicalTokenBlock GPU 0]\<rparr>,
         cpu_allocator = \<lparr>bm_device = CPU, bm_block_size = 8, num_blocks = 2,
           free_blocks = [PhysicalTokenBlock CPU 0, PhysicalTokenBlock CPU 1]\<rparr>,
         block_tables = [(1, [PhysicalTokenBlock GPU 2]), (2, [PhysicalTokenBlock GPU 1]),
                         (3, [PhysicalTokenBlock GPU 3])],
         ref_count = (\<lambda>_. 0)(PhysicalTokenBlock GPU 3 := 1, PhysicalTokenBlock GPU 2 := 1,
                                PhysicalTokenBlock GPU 1 := 1)\<rparr>,
      running = [example_trio], num_steps = [(1, 2)],
      sampling_params = [(1, example_params)],
      swapped = [], pending = []\<rparr>"
section \<open>Lemmas on the block-space manager\<close>

lemma refs_Nil [simp]: "refs [] b = 0"
  by (simp add: refs_def)

lemma refs_Cons [simp]: "refs ((k, t) # bt) b = count_list t b + refs bt b"
  by (simp add: refs_def)

lemma refs_absent: "map_of bt k = None \<Longrightarrow> refs (AList.update k t bt) b = refs bt b + count_list t b"
  by (induction bt) (auto simp: refs_def)

lemma refs_present:
  "distinct (map fst bt) \<Longrightarrow> map_of bt k = Some t0 \<Longrightarrow>
   refs (AList.update k t bt) b + count_list t0 b = refs bt b + count_list t b"
proof (induction bt)
  case Nil
  then show ?case by simp
next
  case (Cons a bt)
  obtain k' t' where a: "a = (k', t')" by (cases a)
  show ?case
  proof (cases "k' = k")
    case True
    with Cons.prems a show ?thesis by simp
  next
    case False
    with Cons a show ?thesis by simp
  qed
qed

lemma refs_delete:
  "distinct (map fst bt) \<Longrightarrow> map_of bt k = Some t0 \<Longrightarrow>
   refs (AList.delete k bt) b + count_list t0 b = refs bt b"
proof (induction bt)
  case Nil
  then show ?case by simp
next
  case (Cons a bt)
  obtain k' t' where a: "a = (k', t')" by (cases a)
  show ?case
  proof (cases "k' = k")
    case True
    with Cons.prems a have "map_of bt k = None"
      by (simp add: map_of_eq_None_iff)
    then have "AList.delete k bt = bt"
      by (simp add: delete_idem map_of_eq_None_iff)
    with Cons.prems a True show ?thesis by simp
  next
    case False
    with Cons a show ?thesis by simp
  qed
qed

lemma set_update_subset: "set (AList.update k v al) \<subseteq> insert (k, v) (set al)"
  by (induction al) auto

lemma set_delete_subset: "set (AList.delete k al) \<subseteq> set al"
  by (induction al) auto

lemma allocator_simps [simp]:
  "allocator d (set_allocator d' bm s) = (if d = d' then bm else allocator d s)"
  "allocator d (s\<lparr>ref_count := rc\<rparr>) = allocator d s"
  "allocator d (s\<lparr>block_tables := bt\<rparr>) = allocator d s"
  "ref_count (set_allocator d bm s) = ref_count s"
  "block_tables (set_allocator d bm s) = block_tables s"
  by (cases d; cases d'; simp add: allocator_def set_allocator_def)+

lemma free_list_simps [simp]:
  "free_list d (s\<lparr>ref_count := rc\<rparr>) = free_list d s"
  "free_list d (s\<lparr>block_tables := bt\<rparr>) = free_list d s"
  by (simp_all add: free_list_def)

lemma in_pool_simps [simp]:
  "in_pool (s\<lparr>ref_count := rc\<rparr>) b = in_pool s b"
  "in_pool (s\<lparr>block_tables := bt\<rparr>) b = in_pool s b"
  by (simp_all add: in_pool_def)

lemma allocate_on_Inr:
  assumes "allocate_on d s = Inr (b, s1)"
  shows "free_list d s = free_list d s1 @ [b]"
    and "ref_count s1 = (ref_count s)(b := 1)"
    and "block_tables s1 = block_tables s"
    and "d' \<noteq> d \<Longrightarrow> free_list d' s1 = free_list d' s"
    and "in_pool s1 = in_pool s"
  using assms
  by (auto simp: allocate_on_def BlockManager_allocate_def Let_def free_list_def in_pool_def
      fun_eq_iff split: if_splits)

lemma allocate_on_Inl:
  "allocate_on d s = Inl e \<longleftrightarrow> free_list d s = [] \<and> e = OutOfMemory"
  by (auto simp: allocate_on_def BlockManager_allocate_def Let_def free_list_def)

lemma allocate_on_ok:
  "free_list d s \<noteq> [] \<Longrightarrow> \<exists>s1. allocate_on d s = Inr (last (free_list d s), s1)"
  by (auto simp: allocate_on_def BlockManager_allocate_def Let_def free_list_def)

lemma free_on_Inr:
  assumes "free_on d s b = Inr s1"
  shows "ref_count s b \<noteq> 0"
    and "ref_count s1 = (ref_count s)(b := ref_count s b - 1)"
    and "block_tables s1 = block_tables s"
    and "free_list d s1 = (if ref_count s b = 1 then free_list d s @ [b] else free_list d s)"
    and "d' \<noteq> d \<Longrightarrow> free_list d' s1 = free_list d' s"
    and "in_pool s1 = in_pool s"
  using assms
  by (auto simp: free_on_def BlockManager_free_def Let_def free_list_def in_pool_def
      fun_eq_iff split: if_splits)

lemma free_on_Inl:
  "free_on d s b = Inl e \<longleftrightarrow> ref_count s b = 0 \<and> e = DoubleFree"
  by (auto simp: free_on_def BlockManager_free_def Let_def)

lemma free_on_ok:
  "ref_count s b \<noteq> 0 \<Longrightarrow> \<exists>s1. free_on d s b = Inr s1"
  by (auto simp: free_on_def BlockManager_free_def Let_def)

lemma balancedD:
  assumes "balanced s dl"
  shows "tables_wf (block_tables s)" and "pools_wf s" and "free_iff_unreferenced s"
    and "\<And>b. 0 \<le> ref_count s b"
    and "\<And>b. int (refs (block_tables s) b) + dl b = ref_count s b"
  using assms unfolding balanced_def by blast+

lemma balancedI:
  assumes "tables_wf (block_tables s)" and "pools_wf s" and "free_iff_unreferenced s"
    and "\<And>b. 0 \<le> ref_count s b"
    and "\<And>b. int (refs (block_tables s) b) + dl b = ref_count s b"
  shows "balanced s dl"
  using assms unfolding balanced_def by blast

lemma invariant_balanced: "manager_invariant s = balanced s (\<lambda>_. 0)"
proof
  assume "manager_invariant s"
  then show "balanced s (\<lambda>_. 0)"
    unfolding manager_invariant_def ref_counts_match_def
    by (intro balancedI) auto
next
  assume b: "balanced s (\<lambda>_. 0)"
  show "manager_invariant s"
    unfolding manager_invariant_def ref_counts_match_def
    using balancedD[OF b] by auto
qed

lemma balanced_cong: "balanced s dl \<Longrightarrow> (\<And>b. dl b = dl' b) \<Longrightarrow> balanced s dl'"
  unfolding balanced_def by simp

lemma balanced_allocate:
  assumes bal: "balanced s dl" and al: "allocate_on d s = Inr (b, s1)"
  shows "balanced s1 (dl(b := dl b + 1))"
    and "ref_count s b = 0" and "device b = d" and "in_pool s b"
    and "b \<notin> set (free_list d s1)"
proof -
  note A = allocate_on_Inr[OF al]
  note tw = balancedD(1)[OF bal] and pw = balancedD(2)[OF bal] and fu = balancedD(3)[OF bal]
    and nn = balancedD(4)[OF bal] and rm = balancedD(5)[OF bal]
  have bin: "b \<in> set (free_list d s)" using A(1) by simp
  with pw show dev: "device b = d" and pool: "in_pool s b"
    by (auto simp: pools_wf_def)
  from fu pool bin dev show rc0: "ref_count s b = 0"
    by (auto simp: free_iff_unreferenced_def)
  from pw have dist: "distinct (free_list d s)" by (simp add: pools_wf_def)
  with A(1) show notin: "b \<notin> set (free_list d s1)" by simp
  have fl: "\<And>d'. set (free_list d' s1) = set (free_list d' s) - {b}"
  proof -
    fix d'
    show "set (free_list d' s1) = set (free_list d' s) - {b}"
    proof (cases "d' = d")
      case True
      with A(1) dist show ?thesis by auto
    next
      case False
      with A(4) pw dev show ?thesis by (auto simp: pools_wf_def)
    qed
  qed
  have dl: "\<And>d'. distinct (free_list d' s1)"
  proof -
    fix d'
    show "distinct (free_list d' s1)"
    proof (cases "d' = d")
      case True
      with A(1) dist show ?thesis by auto
    next
      case False
      with A(4) pw show ?thesis by (auto simp: pools_wf_def)
    qed
  qed
  have pw1: "pools_wf s1"
    unfolding pools_wf_def using pw pool dl fl
    by (auto simp: pools_wf_def A(2) A(5))
  have fu1: "free_iff_unreferenced s1"
    unfolding free_iff_unreferenced_def using fu fl
    by (auto simp: free_iff_unreferenced_def A(2) A(5))
  show "balanced s1 (dl(b := dl b + 1))"
  proof (rule balancedI)
    show "tables_wf (block_tables s1)" using tw by (simp add: A(3))
    show "pools_wf s1" by (rule pw1)
    show "free_iff_unreferenced s1" by (rule fu1)
    show "0 \<le> ref_count s1 x" for x using nn[of x] by (simp add: A(2))
    show "int (refs (block_tables s1) x) + (dl(b := dl b + 1)) x = ref_count s1 x" for x
      using rm[of x] rc0 by (auto simp: A(2) A(3))
  qed
qed

lemma balanced_free:
  assumes bal: "balanced s dl" and fr: "free_on d s b = Inr s1" and dev: "device b = d"
  shows "balanced s1 (dl(b := dl b - 1))"
proof -
  note F = free_on_Inr[OF fr]
  note tw = balancedD(1)[OF bal] and pw = balancedD(2)[OF bal] and fu = balancedD(3)[OF bal]
    and nn = balancedD(4)[OF bal] and rm = balancedD(5)[OF bal]
  from pw F(1) have pool: "in_pool s b" by (simp add: pools_wf_def)
  with fu F(1) dev have notin: "b \<notin> set (free_list d s)"
    by (auto simp: free_iff_unreferenced_def)
  have fl: "set (free_list d' s1) =
      (if d' = d \<and> ref_count s b = 1 then insert b (set (free_list d' s)) else set (free_list d' s))"
    for d'
    using F(4) F(5)[of d'] by (cases "d' = d") auto
  have dl: "\<And>d'. distinct (free_list d' s1)"
  proof -
    fix d'
    show "distinct (free_list d' s1)"
    proof (cases "d' = d")
      case True
      with F(4) pw notin show ?thesis by (auto simp: pools_wf_def)
    next
      case False
      with F(5) pw show ?thesis by (auto simp: pools_wf_def)
    qed
  qed
  have pw1: "pools_wf s1"
    unfolding pools_wf_def using pw pool dl fl dev
    by (auto simp: pools_wf_def F(2) F(6))
  have fu1: "free_iff_unreferenced s1"
    unfolding free_iff_unreferenced_def using fu fl dev notin F(1)
    by (auto simp: free_iff_unreferenced_def F(2) F(6))
  show ?thesis
  proof (rule balancedI)
    show "tables_wf (block_tables s1)" using tw by (simp add: F(3))
    show "pools_wf s1" by (rule pw1)
    show "free_iff_unreferenced s1" by (rule fu1)
    show "0 \<le> ref_count s1 x" for x using nn[of x] F(1) by (auto simp: F(2))
    show "int (refs (block_tables s1) x) + (dl(b := dl b - 1)) x = ref_count s1 x" for x
      using rm[of x] by (auto simp: F(2) F(3))
  qed
qed

lemma balanced_set_ref_count:
  assumes bal: "balanced s dl" and nz: "ref_count s b \<noteq> 0" and pos: "0 < v"
  shows "balanced (s\<lparr>ref_count := (ref_count s)(b := v)\<rparr>) (dl(b := dl b + v - ref_count s b))"
proof (rule balancedI)
  note tw = balancedD(1)[OF bal] and pw = balancedD(2)[OF bal] and fu = balancedD(3)[OF bal]
    and nn = balancedD(4)[OF bal] and rm = balancedD(5)[OF bal]
  let ?s = "s\<lparr>ref_count := (ref_count s)(b := v)\<rparr>"
  show "tables_wf (block_tables ?s)" using tw by simp
  show "pools_wf ?s" using pw nz by (auto simp: pools_wf_def)
  show "free_iff_unreferenced ?s" using fu nz pos by (auto simp: free_iff_unreferenced_def)
  show "0 \<le> ref_count ?s x" for x using nn[of x] pos by simp
  show "int (refs (block_tables ?s) x) + (dl(b := dl b + v - ref_count s b)) x = ref_count ?s x" for x
    using rm[of x] by auto
qed

lemma balanced_update:
  assumes bal: "balanced s dl" and dt: "distinct t"
  shows "balanced (s\<lparr>block_tables := AList.update k t (block_tables s)\<rparr>)
           (\<lambda>b. dl b + (case map_of (block_tables s) k of None \<Rightarrow> 0
                          | Some t0 \<Rightarrow> int (count_list t0 b)) - int (count_list t b))"
proof -
  note tw = balancedD(1)[OF bal] and pw = balancedD(2)[OF bal] and fu = balancedD(3)[OF bal]
    and nn = balancedD(4)[OF bal] and rm = balancedD(5)[OF bal]
  let ?s = "s\<lparr>block_tables := AList.update k t (block_tables s)\<rparr>"
  have dk: "distinct (map fst (block_tables s))" using tw by (simp add: tables_wf_def)
  show ?thesis
  proof (rule balancedI)
    show "tables_wf (block_tables ?s)"
      using tw dt set_update_subset[of k t "block_tables s"]
      by (auto simp: tables_wf_def distinct_update)
    show "pools_wf ?s" using pw by (simp add: pools_wf_def)
    show "free_iff_unreferenced ?s" using fu by (simp add: free_iff_unreferenced_def)
    show "0 \<le> ref_count ?s x" for x using nn[of x] by simp
    show "int (refs (block_tables ?s) x) +
        (dl x + (case map_of (block_tables s) k of None \<Rightarrow> 0 | Some t0 \<Rightarrow> int (count_list t0 x))
          - int (count_list t x)) = ref_count ?s x" for x
    proof (cases "map_of (block_tables s) k")
      case None
      then show ?thesis using rm[of x] by (simp add: refs_absent)
    next
      case (Some t0)
      then show ?thesis using rm[of x] refs_present[OF dk Some, of t x] by simp
    qed
  qed
qed

lemma balanced_delete:
  assumes bal: "balanced s dl" and look: "map_of (block_tables s) k = Some t0"
  shows "balanced (s\<lparr>block_tables := AList.delete k (block_tables s)\<rparr>)
           (\<lambda>b. dl b + int (count_list t0 b))"
proof -
  note tw = balancedD(1)[OF bal] and pw = balancedD(2)[OF bal] and fu = balancedD(3)[OF bal]
    and nn = balancedD(4)[OF bal] and rm = balancedD(5)[OF bal]
  let ?s = "s\<lparr>block_tables := AList.delete k (block_tables s)\<rparr>"
  have dk: "distinct (map fst (block_tables s))" using tw by (simp add: tables_wf_def)
  show ?thesis
  proof (rule balancedI)
    show "tables_wf (block_tables ?s)"
      using tw set_delete_subset[of k "block_tables s"]
      by (auto simp: tables_wf_def distinct_delete)
    show "pools_wf ?s" using pw by (simp add: pools_wf_def)
    show "free_iff_unreferenced ?s" using fu by (simp add: free_iff_unreferenced_def)
    show "0 \<le> ref_count ?s x" for x using nn[of x] by simp
    show "int (refs (block_tables ?s) x) + (dl x + int (count_list t0 x)) = ref_count ?s x" for x
      using rm[of x] refs_delete[OF dk look, of x] by simp
  qed
qed

lemma refs_ge_count: "map_of bt k = Some t \<Longrightarrow> count_list t b \<le> refs bt b"
  by (induction bt) (auto split: if_splits)

lemma unreferenced_not_in_table:
  assumes "balanced s (\<lambda>_. 0)" and "ref_count s b = 0" and "map_of (block_tables s) k = Some t"
  shows "b \<notin> set t"
proof -
  from balancedD(5)[OF assms(1), of b] assms(2) have "refs (block_tables s) b = 0" by simp
  with refs_ge_count[OF assms(3), of b] have "count_list t b = 0" by simp
  then show ?thesis by (simp add: count_list_0_iff)
qed

lemma table_distinct:
  "tables_wf bt \<Longrightarrow> map_of bt k = Some t \<Longrightarrow> distinct t"
  by (auto simp: tables_wf_def dest!: map_of_SomeD)

lemma init_invariant:
  assumes "BlockSpaceManager_init bsize ng nc = Inr s"
  shows "manager_invariant s"
proof -
  from assms have s: "s = \<lparr>block_size = bsize, num_total_gpu_blocks = ng,
        num_total_cpu_blocks = nc,
        gpu_allocator = \<lparr>bm_device = GPU, bm_block_size = bsize, num_blocks = ng,
                free_blocks = map (PhysicalTokenBlock GPU) [0..<ng]\<rparr>,
        cpu_allocator = \<lparr>bm_device = CPU, bm_block_size = bsize, num_blocks = nc,
                free_blocks = map (PhysicalTokenBlock CPU) [0..<nc]\<rparr>,
        block_tables = [], ref_count = (\<lambda>_. 0)\<rparr>"
    by (auto simp: BlockSpaceManager_init_def BlockManager_init_def split: if_splits)
  have fl: "free_list d s = map (PhysicalTokenBlock d) [0..<num_blocks (allocator d s)]" for d
    by (cases d) (simp_all add: s free_list_def allocator_def)
  have inj: "inj_on (PhysicalTokenBlock d) A" for d A
    by (simp add: inj_on_def)
  have "pools_wf s"
    unfolding pools_wf_def by (auto simp: fl distinct_map inj in_pool_def) (simp add: s)
  moreover have "free_iff_unreferenced s"
    unfolding free_iff_unreferenced_def
  proof (intro allI impI)
    fix b assume "in_pool s b"
    then have "b \<in> set (free_list (device b) s)"
      by (cases b) (auto simp: fl in_pool_def)
    moreover have "ref_count s b = 0" by (simp add: s)
    ultimately show "(b \<in> set (free_list (device b) s)) = (ref_count s b = 0)" by simp
  qed
  moreover have "ref_counts_match s" by (simp add: ref_counts_match_def s)
  moreover have "tables_wf (block_tables s)" by (simp add: tables_wf_def s)
  ultimately show ?thesis by (simp add: manager_invariant_def)
qed

lemma append_slot_invariant:
  assumes inv: "manager_invariant s" and ap: "append_slot s seq = Inr (r, s')"
  shows "manager_invariant s'"
proof -
  from inv have bal: "balanced s (\<lambda>_. 0)" by (simp add: invariant_balanced)
  from ap obtain t where look: "map_of (block_tables s) (seq_id seq) = Some t"
    by (auto simp: append_slot_def split: option.splits)
  note dt = table_distinct[OF balancedD(1)[OF bal] look]
  show ?thesis
  proof (cases "length t < length (logical_token_blocks seq)")
    case True
    with ap look obtain b s1 where al: "allocate_on GPU s = Inr (b, s1)"
      and s': "s' = s1\<lparr>block_tables := AList.update (seq_id seq) (t @ [b]) (block_tables s1)\<rparr>"
      by (auto simp: append_slot_def split: sum.splits)
    note B = balanced_allocate[OF bal al] and A = allocate_on_Inr[OF al]
    have nb: "b \<notin> set t" by (rule unreferenced_not_in_table[OF bal B(2) look])
    have "balanced s' (\<lambda>x. ((\<lambda>_. 0)(b := 0 + 1)) x
        + (case map_of (block_tables s1) (seq_id seq) of None \<Rightarrow> 0
            | Some t0 \<Rightarrow> int (count_list t0 x)) - int (count_list (t @ [b]) x))"
      unfolding s' by (rule balanced_update[OF B(1)]) (use dt nb in simp)
    then have "balanced s' (\<lambda>_. 0)"
      by (rule balanced_cong) (simp add: A(3) look)
    then show ?thesis by (simp add: invariant_balanced)
  next
    case False
    show ?thesis
    proof (cases "ref_count s (last t) = 1")
      case True
      with ap look False have "s' = s"
        by (auto simp: append_slot_def Let_def split: if_splits)
      with inv show ?thesis by simp
    next
      case nshared: False
      with ap look False obtain nb s1 where al: "allocate_on GPU s = Inr (nb, s1)"
        and tne: "t \<noteq> []" and dev: "device (last t) = GPU"
        and fr: "free_on GPU (s1\<lparr>block_tables :=
              AList.update (seq_id seq) (butlast t @ [nb]) (block_tables s1)\<rparr>) (last t) = Inr s'"
        by (auto simp: append_slot_def Let_def split: if_splits sum.splits)
      note B = balanced_allocate[OF bal al] and A = allocate_on_Inr[OF al]
      have nbt: "nb \<notin> set t" by (rule unreferenced_not_in_table[OF bal B(2) look])
      with tne have neq: "nb \<noteq> last t" by auto
      have t: "t = butlast t @ [last t]" using tne by simp
      have dbl: "distinct (butlast t @ [nb])"
        using dt nbt by (auto simp: distinct_butlast dest: in_set_butlastD)
      let ?s2 = "s1\<lparr>block_tables := AList.update (seq_id seq) (butlast t @ [nb]) (block_tables s1)\<rparr>"
      have "balanced ?s2 (\<lambda>x. ((\<lambda>_. 0)(nb := 0 + 1)) x
        + (case map_of (block_tables s1) (seq_id seq) of None \<Rightarrow> 0
            | Some t0 \<Rightarrow> int (count_list t0 x)) - int (count_list (butlast t @ [nb]) x))"
        by (rule balanced_update[OF B(1) dbl])
      then have b2: "balanced ?s2 ((\<lambda>_. 0)(last t := 1))"
      proof (rule balanced_cong)
        fix x
        have "count_list t x = count_list (butlast t) x + (if last t = x then 1 else 0)"
          by (subst t) simp
        then show "((\<lambda>_. 0)(nb := 0 + 1)) x
          + (case map_of (block_tables s1) (seq_id seq) of None \<Rightarrow> 0
              | Some t0 \<Rightarrow> int (count_list t0 x)) - int (count_list (butlast t @ [nb]) x)
          = ((\<lambda>_. 0)(last t := 1)) x"
          using neq by (auto simp: A(3) look)
      qed
      have "balanced s' (((\<lambda>_. 0)(last t := 1))(last t := ((\<lambda>_. 0)(last t := 1)) (last t) - 1))"
        by (rule balanced_free[OF b2 fr dev])
      then have "balanced s' (\<lambda>_. 0)"
        by (rule balanced_cong) simp
      then show ?thesis by (simp add: invariant_balanced)
    qed
  qed
qed

lemma fold_incr: "fold (\<lambda>block rc. rc(block := rc block + 1)) t rc = (\<lambda>b. rc b + int (count_list t b))"
  by (induction t arbitrary: rc) (auto simp: fun_eq_iff)

lemma fork_invariant:
  assumes inv: "manager_invariant s" and fk: "fork s p c = Inr s'"
    and fresh: "map_of (block_tables s) (seq_id c) = None"
  shows "manager_invariant s'"
proof -
  from inv have bal: "balanced s (\<lambda>_. 0)" by (simp add: invariant_balanced)
  note tw = balancedD(1)[OF bal] and pw = balancedD(2)[OF bal] and fu = balancedD(3)[OF bal]
    and nn = balancedD(4)[OF bal] and rm = balancedD(5)[OF bal]
  from fk obtain t where look: "map_of (block_tables s) (seq_id p) = Some t"
    and s': "s' = s\<lparr>block_tables := AList.update (seq_id c) t (block_tables s),
                 ref_count := (\<lambda>b. ref_count s b + int (count_list t b))\<rparr>"
    by (auto simp: fork_def fold_incr split: option.splits)
  note dt = table_distinct[OF tw look]
  have pos: "0 < ref_count s b" if "b \<in> set t" for b
  proof -
    from that have "0 < count_list t b" using count_list_0_iff[of t b] by auto
    with refs_ge_count[OF look, of b] rm[of b] show ?thesis by simp
  qed
  have z: "(ref_count s b + int (count_list t b) = 0) = (ref_count s b = 0)" for b
    using pos[of b] nn[of b] by (cases "b \<in> set t") (auto simp: count_list_0_iff)
  have "balanced s' (\<lambda>_. 0)"
  proof (rule balancedI)
    show "tables_wf (block_tables s')"
      using tw dt set_update_subset[of "seq_id c" t "block_tables s"]
      by (auto simp: s' tables_wf_def distinct_update)
    show "pools_wf s'" using pw by (simp add: s' pools_wf_def z)
    show "free_iff_unreferenced s'" using fu
      by (simp add: s' free_iff_unreferenced_def z)
    show "0 \<le> ref_count s' x" for x using nn[of x] by (simp add: s')
    show "int (refs (block_tables s') x) + 0 = ref_count s' x" for x
      using rm[of x] by (simp add: s' refs_absent[OF fresh])
  qed
  then show ?thesis by (simp add: invariant_balanced)
qed

lemma free_block_table_balanced:
  "balanced s dl \<Longrightarrow> free_block_table s t = Inr s1 \<Longrightarrow>
   balanced s1 (\<lambda>b. dl b - int (count_list t b)) \<and> block_tables s1 = block_tables s"
proof (induction t arbitrary: s dl)
  case Nil
  then show ?case by simp
next
  case (Cons b rest)
  from Cons.prems(2) obtain s2 where fr: "free_on (device b) s b = Inr s2"
    and rest: "free_block_table s2 rest = Inr s1"
    by (cases "device b") (auto split: sum.splits)
  have b2: "balanced s2 (dl(b := dl b - 1))"
    by (rule balanced_free[OF Cons.prems(1) fr]) simp
  from Cons.IH[OF b2 rest]
  have b1: "balanced s1 (\<lambda>x. (dl(b := dl b - 1)) x - int (count_list rest x))"
    and bt: "block_tables s1 = block_tables s2" by simp_all
  from b1 have "balanced s1 (\<lambda>x. dl x - int (count_list (b # rest) x))"
    by (rule balanced_cong) simp
  with bt free_on_Inr(3)[OF fr] show ?case by simp
qed

lemma free_invariant:
  assumes inv: "manager_invariant s" and fr: "free s seq = Inr s'"
  shows "manager_invariant s'"
proof -
  from inv have bal: "balanced s (\<lambda>_. 0)" by (simp add: invariant_balanced)
  from fr obtain t s1 where look: "map_of (block_tables s) (seq_id seq) = Some t"
    and ft: "free_block_table s t = Inr s1"
    and s': "s' = s1\<lparr>block_tables := AList.delete (seq_id seq) (block_tables s1)\<rparr>"
    by (auto simp: free_def split: option.splits sum.splits)
  from free_block_table_balanced[OF bal ft]
  have b1: "balanced s1 (\<lambda>b. 0 - int (count_list t b))" and bt: "block_tables s1 = block_tables s"
    by simp_all
  have "balanced s' (\<lambda>b. (0 - int (count_list t b)) + int (count_list t b))"
    unfolding s' by (rule balanced_delete[OF b1]) (simp add: bt look)
  then have "balanced s' (\<lambda>_. 0)" by (rule balanced_cong) simp
  then show ?thesis by (simp add: invariant_balanced)
qed

lemma free_block_tables_balanced:
  "balanced s dl \<Longrightarrow> free_block_tables s ts = Inr s1 \<Longrightarrow>
   balanced s1 (\<lambda>b. dl b - int (sum_list (map (\<lambda>t. count_list t b) ts)))
   \<and> block_tables s1 = block_tables s"
proof (induction ts arbitrary: s dl)
  case Nil
  then show ?case by simp
next
  case (Cons t rest)
  from Cons.prems(2) obtain s2 where ft: "free_block_table s t = Inr s2"
    and rest: "free_block_tables s2 rest = Inr s1"
    by (auto split: sum.splits)
  from free_block_table_balanced[OF Cons.prems(1) ft]
  have b2: "balanced s2 (\<lambda>b. dl b - int (count_list t b))"
    and bt2: "block_tables s2 = block_tables s" by simp_all
  from Cons.IH[OF b2 rest]
  have b1: "balanced s1 (\<lambda>b. (dl b - int (count_list t b)) - int (sum_list (map (\<lambda>t. count_list t b) rest)))"
    and bt: "block_tables s1 = block_tables s2" by simp_all
  from b1 have "balanced s1 (\<lambda>b. dl b - int (sum_list (map (\<lambda>t. count_list t b) (t # rest))))"
    by (rule balanced_cong) simp
  with bt bt2 show ?case by simp
qed

lemma reset_invariant:
  assumes inv: "manager_invariant s" and rs: "reset s = Inr s'"
  shows "manager_invariant s'"
proof -
  from inv have bal: "balanced s (\<lambda>_. 0)" by (simp add: invariant_balanced)
  from rs obtain s1 where ft: "free_block_tables s (map snd (block_tables s)) = Inr s1"
    and s': "s' = s1\<lparr>block_tables := []\<rparr>"
    by (auto simp: reset_def split: sum.splits)
  from free_block_tables_balanced[OF bal ft]
  have b1: "balanced s1 (\<lambda>b. 0 - int (sum_list (map (\<lambda>t. count_list t b) (map snd (block_tables s)))))"
    and bt: "block_tables s1 = block_tables s" by simp_all
  have "balanced s' (\<lambda>_. 0)"
  proof (rule balancedI)
    show "tables_wf (block_tables s')" by (simp add: s' tables_wf_def)
    show "pools_wf s'" using balancedD(2)[OF b1] by (simp add: s' pools_wf_def)
    show "free_iff_unreferenced s'" using balancedD(3)[OF b1]
      by (simp add: s' free_iff_unreferenced_def)
    show "0 \<le> ref_count s' x" for x using balancedD(4)[OF b1, of x] by (simp add: s')
    show "int (refs (block_tables s') x) + 0 = ref_count s' x" for x
      using balancedD(5)[OF b1, of x] by (simp add: s' bt refs_def comp_def)
  qed
  then show ?thesis by (simp add: invariant_balanced)
qed

lemma allocate_blocks_balanced:
  "balanced s dl \<Longrightarrow> allocate_blocks n k tbl s = Inr (tbl', s') \<Longrightarrow> 0 < k \<Longrightarrow>
   distinct tbl \<Longrightarrow> set tbl \<inter> set (free_list GPU s) = {} \<Longrightarrow>
   \<exists>new. tbl' = tbl @ new \<and> length new = n \<and> distinct tbl'
     \<and> set tbl' \<inter> set (free_list GPU s') = {}
     \<and> balanced s' (\<lambda>b. dl b + int k * int (count_list new b))
     \<and> block_tables s' = block_tables s"
proof (induction n arbitrary: s dl tbl)
  case 0
  then show ?case by (auto elim: balanced_cong)
next
  case (Suc n)
  from Suc.prems(2) obtain b s1 where al: "allocate_on GPU s = Inr (b, s1)"
    and rest: "allocate_blocks n k (tbl @ [b]) (s1\<lparr>ref_count := (ref_count s1)(b := int k)\<rparr>)
        = Inr (tbl', s')"
    by (auto split: sum.splits)
  note B = balanced_allocate[OF Suc.prems(1) al] and A = allocate_on_Inr[OF al]
  let ?s2 = "s1\<lparr>ref_count := (ref_count s1)(b := int k)\<rparr>"
  have "balanced ?s2 ((dl(b := dl b + 1))(b := (dl(b := dl b + 1)) b + int k - ref_count s1 b))"
    by (rule balanced_set_ref_count[OF B(1)]) (use Suc.prems(3) in \<open>simp_all add: A(2)\<close>)
  then have b2: "balanced ?s2 (dl(b := dl b + int k))"
    by (rule balanced_cong) (simp add: A(2))
  have bin: "b \<in> set (free_list GPU s)" by (simp add: A(1))
  with Suc.prems(5) have bn: "b \<notin> set tbl" by auto
  have d2: "distinct (tbl @ [b])" using Suc.prems(4) bn by simp
  have i2: "set (tbl @ [b]) \<inter> set (free_list GPU ?s2) = {}"
    using Suc.prems(5) B(5) by (auto simp: A(1))
  from Suc.IH[OF b2 rest Suc.prems(3) d2 i2] obtain new where
    n1: "tbl' = (tbl @ [b]) @ new" and n2: "length new = n" and n3: "distinct tbl'"
    and n4: "set tbl' \<inter> set (free_list GPU s') = {}"
    and n5: "balanced s' (\<lambda>x. (dl(b := dl b + int k)) x + int k * int (count_list new x))"
    and n6: "block_tables s' = block_tables ?s2"
    by blast
  have "balanced s' (\<lambda>x. dl x + int k * int (count_list (b # new) x))"
    using n5 by (rule balanced_cong) (simp add: algebra_simps)
  with n1 n2 n3 n4 n6 A(3) show ?case
    by (intro exI[of _ "b # new"]) simp
qed

lemma assign_tables_balanced:
  "balanced s dl \<Longrightarrow> distinct (map seq_id qs) \<Longrightarrow>
   (\<forall>q \<in> set qs. map_of (block_tables s) (seq_id q) = None) \<Longrightarrow> distinct tbl \<Longrightarrow>
   balanced (s\<lparr>block_tables := assign_tables qs tbl (block_tables s)\<rparr>)
     (\<lambda>b. dl b - int (length qs) * int (count_list tbl b))"
proof (induction qs arbitrary: s dl)
  case Nil
  then show ?case by (auto elim: balanced_cong)
next
  case (Cons q qs)
  let ?s2 = "s\<lparr>block_tables := AList.update (seq_id q) tbl (block_tables s)\<rparr>"
  have fresh: "map_of (block_tables s) (seq_id q) = None" using Cons.prems(3) by simp
  have "balanced ?s2 (\<lambda>b. dl b + (case map_of (block_tables s) (seq_id q) of None \<Rightarrow> 0
                          | Some t0 \<Rightarrow> int (count_list t0 b)) - int (count_list tbl b))"
    by (rule balanced_update[OF Cons.prems(1) Cons.prems(4)])
  then have b2: "balanced ?s2 (\<lambda>b. dl b - int (count_list tbl b))"
    by (rule balanced_cong) (simp add: fresh)
  have f2: "\<forall>q' \<in> set qs. map_of (block_tables ?s2) (seq_id q') = None"
    using Cons.prems(2,3) by (auto simp: update_conv' rev_image_eqI)
  from Cons.IH[OF b2 _ f2 Cons.prems(4)] Cons.prems(2)
  have "balanced (?s2\<lparr>block_tables := assign_tables qs tbl (block_tables ?s2)\<rparr>)
     (\<lambda>b. (dl b - int (count_list tbl b)) - int (length qs) * int (count_list tbl b))"
    by simp
  then show ?case
    by (auto elim!: balanced_cong simp: algebra_simps)
qed

lemma allocate_invariant:
  assumes inv: "manager_invariant s" and al: "allocate s g = Inr s'"
    and di: "distinct (map seq_id (seqs g))"
    and fresh: "\<forall>q \<in> set (seqs g). map_of (block_tables s) (seq_id q) = None"
  shows "manager_invariant s'"
proof -
  from inv have bal: "balanced s (\<lambda>_. 0)" by (simp add: invariant_balanced)
  from al obtain q0 qs tbl s1 where g: "seqs g = q0 # qs"
    and ab: "allocate_blocks (length (logical_token_blocks q0)) (length (seqs g)) [] s = Inr (tbl, s1)"
    and s': "s' = s1\<lparr>block_tables := assign_tables (seqs g) tbl (block_tables s1)\<rparr>"
    by (auto simp: allocate_def num_seqs_def split: list.splits sum.splits)
  have kpos: "0 < length (seqs g)" by (simp add: g)
  from allocate_blocks_balanced[OF bal ab kpos] obtain new where
    n1: "tbl = new" and n3: "distinct tbl"
    and n5: "balanced s1 (\<lambda>b. 0 + int (length (seqs g)) * int (count_list new b))"
    and n6: "block_tables s1 = block_tables s"
    by auto
  have "balanced s' (\<lambda>b. (0 + int (length (seqs g)) * int (count_list new b))
      - int (length (seqs g)) * int (count_list tbl b))"
    unfolding s' by (rule assign_tables_balanced[OF n5 di _ n3]) (use fresh n6 in simp)
  then have "balanced s' (\<lambda>_. 0)" by (rule balanced_cong) (simp add: n1)
  then show ?thesis by (simp add: invariant_balanced)
qed

lemma swap_rel_refl: "swap_rel src dst [] m s m s"
  by (auto simp: swap_rel_def dom_def)

lemma ran_mono: "f \<subseteq>\<^sub>m g \<Longrightarrow> ran f \<subseteq> ran g"
  by (auto simp: ran_def map_le_def dom_def) metis

lemma swap_rel_trans:
  assumes r1: "swap_rel src dst P1 m s m1 s1" and r2: "swap_rel src dst P2 m1 s1 m2 s2"
  shows "swap_rel src dst (P1 @ P2) m s m2 s2"
proof -
  from r1 have le1: "map_of m \<subseteq>\<^sub>m map_of m1" and d1: "dom (map_of m1) = dom (map_of m) \<union> set P1"
    and n1: "\<exists>news. free_list dst s = free_list dst s1 @ rev news
                 \<and> set news = ran (map_of m1) - ran (map_of m)"
    and p1: "\<exists>pushed. free_list src s1 = free_list src s @ pushed \<and> set pushed \<subseteq> set P1"
    and a1: "\<And>x. device x = src \<Longrightarrow> ref_count s1 x = ref_count s x - int (count_list P1 x)"
    and b1: "\<And>ob nb. map_of m1 ob = Some nb \<Longrightarrow>
            ref_count s1 nb = (if ob \<in> dom (map_of m) then ref_count s nb else 0)
                               + int (count_list P1 ob)"
    and c1: "\<And>x. device x \<noteq> src \<Longrightarrow> x \<notin> ran (map_of m1) \<Longrightarrow> ref_count s1 x = ref_count s x"
    and e1: "\<And>x. in_pool s1 x = in_pool s x"
    unfolding swap_rel_def by blast+
  from r2 have le2: "map_of m1 \<subseteq>\<^sub>m map_of m2" and d2: "dom (map_of m2) = dom (map_of m1) \<union> set P2"
    and n2: "\<exists>news. free_list dst s1 = free_list dst s2 @ rev news
                 \<and> set news = ran (map_of m2) - ran (map_of m1)"
    and p2: "\<exists>pushed. free_list src s2 = free_list src s1 @ pushed \<and> set pushed \<subseteq> set P2"
    and a2: "\<And>x. device x = src \<Longrightarrow> ref_count s2 x = ref_count s1 x - int (count_list P2 x)"
    and b2: "\<And>ob nb. map_of m2 ob = Some nb \<Longrightarrow>
            ref_count s2 nb = (if ob \<in> dom (map_of m1) then ref_count s1 nb else 0)
                               + int (count_list P2 ob)"
    and c2: "\<And>x. device x \<noteq> src \<Longrightarrow> x \<notin> ran (map_of m2) \<Longrightarrow> ref_count s2 x = ref_count s1 x"
    and e2: "\<And>x. in_pool s2 x = in_pool s1 x"
    unfolding swap_rel_def by blast+
  note rm1 = ran_mono[OF le1] and rm2 = ran_mono[OF le2]
  have le: "map_of m \<subseteq>\<^sub>m map_of m2" using le1 le2 by (rule map_le_trans)
  have d: "dom (map_of m2) = dom (map_of m) \<union> set (P1 @ P2)" using d1 d2 by auto
  have n: "\<exists>news. free_list dst s = free_list dst s2 @ rev news
                 \<and> set news = ran (map_of m2) - ran (map_of m)"
  proof -
    from n1 obtain k1 where k1: "free_list dst s = free_list dst s1 @ rev k1"
      "set k1 = ran (map_of m1) - ran (map_of m)" by blast
    from n2 obtain k2 where k2: "free_list dst s1 = free_list dst s2 @ rev k2"
      "set k2 = ran (map_of m2) - ran (map_of m1)" by blast
    have "free_list dst s = free_list dst s2 @ rev (k1 @ k2)" using k1(1) k2(1) by simp
    moreover have "set (k1 @ k2) = ran (map_of m2) - ran (map_of m)"
      using k1(2) k2(2) rm1 rm2 by auto
    ultimately show ?thesis by blast
  qed
  have p: "\<exists>pushed. free_list src s2 = free_list src s @ pushed \<and> set pushed \<subseteq> set (P1 @ P2)"
  proof -
    from p1 obtain k1 where k1: "free_list src s1 = free_list src s @ k1" "set k1 \<subseteq> set P1" by blast
    from p2 obtain k2 where k2: "free_list src s2 = free_list src s1 @ k2" "set k2 \<subseteq> set P2" by blast
    have "free_list src s2 = free_list src s @ (k1 @ k2)" using k1(1) k2(1) by simp
    moreover have "set (k1 @ k2) \<subseteq> set (P1 @ P2)" using k1(2) k2(2) by auto
    ultimately show ?thesis by blast
  qed
  have a: "ref_count s2 x = ref_count s x - int (count_list (P1 @ P2) x)" if "device x = src" for x
    using a1[OF that] a2[OF that] by simp
  have b: "ref_count s2 nb = (if ob \<in> dom (map_of m) then ref_count s nb else 0)
                               + int (count_list (P1 @ P2) ob)"
    if look: "map_of m2 ob = Some nb" for ob nb
  proof (cases "ob \<in> dom (map_of m1)")
    case True
    then have "map_of m1 ob = Some nb" using le2 look by (auto simp: map_le_def dom_def)
    from b1[OF this] b2[OF look] True show ?thesis by simp
  next
    case False
    with d1 have "ob \<notin> dom (map_of m)" and "ob \<notin> set P1" by auto
    with b2[OF look] False show ?thesis by simp
  qed
  have c: "ref_count s2 x = ref_count s x" if "device x \<noteq> src" "x \<notin> ran (map_of m2)" for x
  proof -
    from that(2) rm2 have "x \<notin> ran (map_of m1)" by auto
    from c1[OF that(1) this] c2[OF that] show ?thesis by simp
  qed
  have e: "in_pool s2 x = in_pool s x" for x using e1 e2 by simp
  show ?thesis
    unfolding swap_rel_def using le d n p a b c e by blast
qed

lemma swap_table_Cons:
  "swap_table src dst (b # rest) acc =
     (case swap_table src dst [b] acc of Inl e \<Rightarrow> Inl e
      | Inr acc1 \<Rightarrow> swap_table src dst rest acc1)"
  by (cases acc) (auto split: sum.splits option.splits)

lemma swap_table_single_cases:
  assumes "swap_table src dst [b] (m, nt, s) = Inr (m1, nt1, s2)"
  obtains (mapped) nb where "map_of m b = Some nb" "m1 = m" "nt1 = nt @ [nb]"
      "free_on src (s\<lparr>ref_count := (ref_count s)(nb := ref_count s nb + 1)\<rparr>) b = Inr s2"
  | (fresh) nb s1 where "map_of m b = None" "allocate_on dst s = Inr (nb, s1)"
      "m1 = AList.update b nb m" "nt1 = nt @ [nb]" "free_on src s1 b = Inr s2"
  using assms by (auto split: sum.splits option.splits)

lemma inj_on_map_upd:
  assumes "inj_on f (dom f)" and "v \<notin> ran f"
  shows "inj_on (f(k \<mapsto> v)) (dom (f(k \<mapsto> v)))"
  using assms by (auto simp: inj_on_def ran_def dom_def)

lemma swap_table_single:
  assumes st: "swap_table src dst [b] (m, nt, s) = Inr (m1, nt1, s2)"
    and ne: "src \<noteq> dst" and dev: "device b = src" and si: "swap_inv dst m s"
  shows "swap_rel src dst [b] m s m1 s2" and "swap_inv dst m1 s2"
    and "\<exists>nb. map_of m1 b = Some nb \<and> nt1 = nt @ [nb]"
    and "block_tables s2 = block_tables s"
proof -
  from si have pure: "\<And>x. x \<in> set (free_list dst s) \<Longrightarrow> device x = dst"
    and dist: "distinct (free_list dst s)"
    and disj: "set (free_list dst s) \<inter> ran (map_of m) = {}"
    and rdev: "\<And>nb. nb \<in> ran (map_of m) \<Longrightarrow> device nb = dst"
    and inj: "inj_on (map_of m) (dom (map_of m))"
    unfolding swap_inv_def by blast+
  have goal: "swap_rel src dst [b] m s m1 s2 \<and> swap_inv dst m1 s2
    \<and> (\<exists>nb. map_of m1 b = Some nb \<and> nt1 = nt @ [nb]) \<and> block_tables s2 = block_tables s"
    using st
  proof (cases rule: swap_table_single_cases)
    case (mapped nb)
    let ?s1 = "s\<lparr>ref_count := (ref_count s)(nb := ref_count s nb + 1)\<rparr>"
    note F = free_on_Inr[OF mapped(4)]
    have nbr: "nb \<in> ran (map_of m)" using mapped(1) by (auto simp: ran_def)
    then have nbd: "device nb = dst" by (rule rdev)
    with dev ne have nbb: "nb \<noteq> b" by auto
    have fd: "free_list dst s2 = free_list dst s" using F(5)[of dst] ne by simp
    have fs: "\<exists>pushed. free_list src s2 = free_list src s @ pushed \<and> set pushed \<subseteq> set [b]"
      using F(4) by (cases "ref_count ?s1 b = 1") auto
    have rc2: "ref_count s2 = ((ref_count s)(nb := ref_count s nb + 1))(b := ref_count s b - 1)"
      using F(2) nbb by (simp add: fun_eq_iff)
    have i: "ref_count s2 x = ref_count s x - int (count_list [b] x)" if "device x = src" for x
      using that nbd ne by (auto simp: rc2)
    have ii: "ref_count s2 nb' = (if ob \<in> dom (map_of m) then ref_count s nb' else 0)
                               + int (count_list [b] ob)"
      if "map_of m ob = Some nb'" for ob nb'
    proof -
      from that have "nb' \<in> ran (map_of m)" by (auto simp: ran_def)
      then have "device nb' = dst" by (rule rdev)
      with dev ne have "nb' \<noteq> b" by auto
      moreover have "(nb' = nb) = (ob = b)"
        using inj that mapped(1) by (auto simp: inj_on_def dom_def)
      ultimately show ?thesis using that by (auto simp: rc2)
    qed
    have iii: "ref_count s2 x = ref_count s x" if "device x \<noteq> src" "x \<notin> ran (map_of m)" for x
      using that nbr dev by (auto simp: rc2)
    have pl: "in_pool s2 x = in_pool s x" for x using F(6) by simp
    have "swap_rel src dst [b] m s m1 s2"
      unfolding swap_rel_def mapped(2)
      using fd fs i ii iii pl mapped(1) by (auto simp: dom_def)
    moreover have "swap_inv dst m1 s2"
      using si by (simp add: swap_inv_def mapped(2) fd)
    ultimately show ?thesis using mapped(1,2,3) F(3) by simp
  next
    case (fresh nb s1)
    note A = allocate_on_Inr[OF fresh(2)] and F = free_on_Inr[OF fresh(5)]
    have nbf: "nb \<in> set (free_list dst s)" by (simp add: A(1))
    then have nbd: "device nb = dst" by (rule pure)
    with dev ne have nbb: "nb \<noteq> b" by auto
    from nbf disj have nbr: "nb \<notin> ran (map_of m)" by auto
    have m1: "map_of m1 = (map_of m)(b \<mapsto> nb)" by (simp add: fresh(3) update_conv')
    have ran1: "ran (map_of m1) = insert nb (ran (map_of m))"
      using fresh(1) by (simp add: m1)
    have fd: "free_list dst s = free_list dst s2 @ [nb]" using F(5)[of dst] ne A(1) by simp
    have fs: "\<exists>pushed. free_list src s2 = free_list src s @ pushed \<and> set pushed \<subseteq> set [b]"
      using F(4) A(4)[of src] ne by (cases "ref_count s1 b = 1") auto
    have rc2: "ref_count s2 = ((ref_count s)(nb := 1))(b := ref_count s b - 1)"
      using F(2) nbb by (simp add: fun_eq_iff A(2))
    have i: "ref_count s2 x = ref_count s x - int (count_list [b] x)" if "device x = src" for x
      using that nbd ne by (auto simp: rc2)
    have ii: "ref_count s2 nb' = (if ob \<in> dom (map_of m) then ref_count s nb' else 0)
                               + int (count_list [b] ob)"
      if "map_of m1 ob = Some nb'" for ob nb'
    proof (cases "ob = b")
      case True
      with that have "nb' = nb" by (simp add: m1)
      with True fresh(1) nbb show ?thesis by (auto simp: rc2 dom_def)
    next
      case False
      with that have mo: "map_of m ob = Some nb'" by (simp add: m1)
      then have r: "nb' \<in> ran (map_of m)" by (auto simp: ran_def)
      then have "device nb' = dst" by (rule rdev)
      with dev ne have "nb' \<noteq> b" by auto
      moreover from r nbr have "nb' \<noteq> nb" by auto
      ultimately show ?thesis using False mo by (auto simp: rc2 dom_def)
    qed
    have iii: "ref_count s2 x = ref_count s x" if "device x \<noteq> src" "x \<notin> ran (map_of m1)" for x
      using that dev by (auto simp: rc2 ran1)
    have "swap_rel src dst [b] m s m1 s2"
      unfolding swap_rel_def
    proof (intro conjI allI impI)
      show "map_of m \<subseteq>\<^sub>m map_of m1" using fresh(1) by (simp add: m1 map_le_def dom_def)
      show "dom (map_of m1) = dom (map_of m) \<union> set [b]" by (simp add: m1)
      show "\<exists>news. free_list dst s = free_list dst s2 @ rev news \<and>
           set news = ran (map_of m1) - ran (map_of m)"
        using fd nbr by (intro exI[of _ "[nb]"]) (auto simp: ran1)
      show "\<exists>pushed. free_list src s2 = free_list src s @ pushed \<and> set pushed \<subseteq> set [b]"
        by (rule fs)
      show "in_pool s2 x = in_pool s x" for x using F(6) A(5) by simp
    qed (use i ii iii in blast)+
    moreover have "swap_inv dst m1 s2"
      unfolding swap_inv_def
    proof (intro conjI ballI)
      have sub: "set (free_list dst s2) = set (free_list dst s) - {nb}" using fd dist by auto
      show "device x = dst" if "x \<in> set (free_list dst s2)" for x using that pure sub by auto
      show "distinct (free_list dst s2)" using dist fd by simp
      show "set (free_list dst s2) \<inter> ran (map_of m1) = {}" using disj sub by (auto simp: ran1)
      show "device x = dst" if "x \<in> ran (map_of m1)" for x using that rdev nbd by (auto simp: ran1)
      show "inj_on (map_of m1) (dom (map_of m1))"
        unfolding m1 by (rule inj_on_map_upd[OF inj nbr])
    qed
    ultimately show ?thesis using fresh(4) F(3) A(3) by (simp add: m1)
  qed
  then show "swap_rel src dst [b] m s m1 s2" and "swap_inv dst m1 s2"
    and "\<exists>nb. map_of m1 b = Some nb \<and> nt1 = nt @ [nb]"
    and "block_tables s2 = block_tables s" by blast+
qed

lemma swap_rel_dom: "swap_rel src dst P m s m' s' \<Longrightarrow> dom (map_of m') = dom (map_of m) \<union> set P"
  by (simp add: swap_rel_def)

lemma swap_rel_le: "swap_rel src dst P m s m' s' \<Longrightarrow> map_of m \<subseteq>\<^sub>m map_of m'"
  by (simp add: swap_rel_def)

lemma map_le_the:
  "f \<subseteq>\<^sub>m g \<Longrightarrow> b \<in> dom f \<Longrightarrow> the (g b) = the (f b)"
  by (auto simp: map_le_def dom_def)

lemma swap_table_rel:
  "swap_table src dst t (m, nt, s) = Inr (m', nt', s') \<Longrightarrow> src \<noteq> dst \<Longrightarrow>
   \<forall>b \<in> set t. device b = src \<Longrightarrow> swap_inv dst m s \<Longrightarrow>
   swap_rel src dst t m s m' s' \<and> swap_inv dst m' s'
   \<and> nt' = nt @ map (\<lambda>b. the (map_of m' b)) t \<and> block_tables s' = block_tables s"
proof (induction t arbitrary: m nt s)
  case Nil
  then show ?case by (simp add: swap_rel_refl)
next
  case (Cons b rest)
  from Cons.prems(1) obtain m1 nt1 s1 where
    one: "swap_table src dst [b] (m, nt, s) = Inr (m1, nt1, s1)"
    and more: "swap_table src dst rest (m1, nt1, s1) = Inr (m', nt', s')"
    by (subst (asm) swap_table_Cons) (auto split: sum.splits)
  have dev: "device b = src" using Cons.prems(3) by simp
  note S = swap_table_single[OF one Cons.prems(2) dev Cons.prems(4)]
  from S(3) obtain nb where nb: "map_of m1 b = Some nb" "nt1 = nt @ [nb]" by blast
  have "swap_rel src dst rest m1 s1 m' s' \<and> swap_inv dst m' s'
     \<and> nt' = nt1 @ map (\<lambda>b. the (map_of m' b)) rest \<and> block_tables s' = block_tables s1"
    by (rule Cons.IH[OF more Cons.prems(2) _ S(2)]) (use Cons.prems(3) in simp)
  then have r: "swap_rel src dst rest m1 s1 m' s'" and i: "swap_inv dst m' s'"
    and n: "nt' = nt1 @ map (\<lambda>b. the (map_of m' b)) rest"
    and bt: "block_tables s' = block_tables s1" by blast+
  have "swap_rel src dst ([b] @ rest) m s m' s'" by (rule swap_rel_trans[OF S(1) r])
  moreover have "the (map_of m' b) = nb"
    using map_le_the[OF swap_rel_le[OF r], of b] nb(1) by (simp add: dom_def)
  ultimately show ?case using i n bt nb(2) S(4) by simp
qed

lemma swap_table_balanced:
  "swap_table src dst t (m, nt, s) = Inr (m', nt', s') \<Longrightarrow> src \<noteq> dst \<Longrightarrow>
   \<forall>b \<in> set t. device b = src \<Longrightarrow> balanced s dl \<Longrightarrow>
   \<forall>nb \<in> ran (map_of m). device nb = dst \<and> ref_count s nb \<noteq> 0 \<Longrightarrow>
   (\<exists>new. nt' = nt @ new
      \<and> balanced s' (\<lambda>x. dl x + int (count_list new x) - int (count_list t x)))
   \<and> (\<forall>nb \<in> ran (map_of m'). device nb = dst \<and> ref_count s' nb \<noteq> 0)"
proof (induction t arbitrary: m nt s dl)
  case Nil
  then show ?case by (auto elim: balanced_cong)
next
  case (Cons b rest)
  from Cons.prems(1) obtain m1 nt1 s2 where
    one: "swap_table src dst [b] (m, nt, s) = Inr (m1, nt1, s2)"
    and more: "swap_table src dst rest (m1, nt1, s2) = Inr (m', nt', s')"
    by (subst (asm) swap_table_Cons) (auto split: sum.splits)
  have dev: "device b = src" using Cons.prems(3) by simp
  have alive: "\<And>x. x \<in> ran (map_of m) \<Longrightarrow> device x = dst \<and> ref_count s x \<noteq> 0"
    using Cons.prems(5) by blast
  have step: "\<exists>nb. nt1 = nt @ [nb] \<and> balanced s2 ((dl(nb := dl nb + 1))(b := (dl(nb := dl nb + 1)) b - 1))
      \<and> (\<forall>x \<in> ran (map_of m1). device x = dst \<and> ref_count s2 x \<noteq> 0)"
    using one
  proof (cases rule: swap_table_single_cases)
    case (mapped nb)
    let ?s1 = "s\<lparr>ref_count := (ref_count s)(nb := ref_count s nb + 1)\<rparr>"
    note F = free_on_Inr[OF mapped(4)]
    have nbr: "nb \<in> ran (map_of m)" using mapped(1) by (auto simp: ran_def)
    from alive[OF nbr] have nbd: "device nb = dst" and nz: "ref_count s nb \<noteq> 0" by simp_all
    have pos: "0 < ref_count s nb + 1" using balancedD(4)[OF Cons.prems(4), of nb] by simp
    have "balanced ?s1 (dl(nb := dl nb + (ref_count s nb + 1) - ref_count s nb))"
      by (rule balanced_set_ref_count[OF Cons.prems(4) nz pos])
    then have b1: "balanced ?s1 (dl(nb := dl nb + 1))" by (rule balanced_cong) simp
    have b2: "balanced s2 ((dl(nb := dl nb + 1))(b := (dl(nb := dl nb + 1)) b - 1))"
      by (rule balanced_free[OF b1 mapped(4) dev])
    have "device x = dst \<and> ref_count s2 x \<noteq> 0" if "x \<in> ran (map_of m1)" for x
    proof -
      from that mapped(2) have xr: "x \<in> ran (map_of m)" by simp
      from alive[OF xr] dev Cons.prems(2) have "x \<noteq> b" by auto
      with alive[OF xr] balancedD(4)[OF Cons.prems(4), of x] show ?thesis
        by (auto simp: F(2))
    qed
    with b2 mapped(3) show ?thesis by blast
  next
    case (fresh nb s1)
    note B = balanced_allocate[OF Cons.prems(4) fresh(2)]
      and A = allocate_on_Inr[OF fresh(2)] and F = free_on_Inr[OF fresh(5)]
    have b2: "balanced s2 ((dl(nb := dl nb + 1))(b := (dl(nb := dl nb + 1)) b - 1))"
      by (rule balanced_free[OF B(1) fresh(5) dev])
    have m1: "map_of m1 = (map_of m)(b \<mapsto> nb)" by (simp add: fresh(3) update_conv')
    have ran1: "ran (map_of m1) = insert nb (ran (map_of m))"
      using fresh(1) by (simp add: m1)
    have "device x = dst \<and> ref_count s2 x \<noteq> 0" if "x \<in> ran (map_of m1)" for x
    proof (cases "x = nb")
      case True
      with B(3) dev Cons.prems(2) have "x \<noteq> b" by auto
      with True B(3) show ?thesis by (simp add: F(2) A(2))
    next
      case False
      with that have xr: "x \<in> ran (map_of m)" by (simp add: ran1)
      from alive[OF xr] dev Cons.prems(2) have "x \<noteq> b" by auto
      with alive[OF xr] False show ?thesis by (simp add: F(2) A(2))
    qed
    with b2 fresh(4) show ?thesis by blast
  qed
  then obtain nb where nt1: "nt1 = nt @ [nb]"
    and b2: "balanced s2 ((dl(nb := dl nb + 1))(b := (dl(nb := dl nb + 1)) b - 1))"
    and al2: "\<forall>x \<in> ran (map_of m1). device x = dst \<and> ref_count s2 x \<noteq> 0"
    by blast
  have r3: "\<forall>b \<in> set rest. device b = src" using Cons.prems(3) by simp
  from Cons.IH[OF more Cons.prems(2) r3 b2 al2] obtain new where
    new: "nt' = nt1 @ new"
    and bal: "balanced s' (\<lambda>x. ((dl(nb := dl nb + 1))(b := (dl(nb := dl nb + 1)) b - 1)) x
                 + int (count_list new x) - int (count_list rest x))"
    and al: "\<forall>nb \<in> ran (map_of m'). device nb = dst \<and> ref_count s' nb \<noteq> 0"
    by blast
  have "balanced s' (\<lambda>x. dl x + int (count_list (nb # new) x) - int (count_list (b # rest) x))"
    using bal by (rule balanced_cong) auto
  with new nt1 al show ?case by (intro conjI exI[of _ "nb # new"]) simp_all
qed

lemma live_seqs_simps [simp]:
  "live_seqs [] = []"
  "live_seqs (q # qs) = (if status q = FINISHED then live_seqs qs else q # live_seqs qs)"
  by (simp_all add: live_seqs_def)

lemma swap_rel_tables [simp]:
  "swap_rel src dst P m s m' (s'\<lparr>block_tables := bt\<rparr>) = swap_rel src dst P m s m' s'"
  "swap_rel src dst P m (s\<lparr>block_tables := bt\<rparr>) m' s' = swap_rel src dst P m s m' s'"
  by (simp_all add: swap_rel_def)

lemma swap_inv_tables [simp]:
  "swap_inv dst m (s\<lparr>block_tables := bt\<rparr>) = swap_inv dst m s"
  by (simp add: swap_inv_def)

lemma group_blocks_update:
  "k \<notin> seq_id ` set (live_seqs qs) \<Longrightarrow> group_blocks (AList.update k v bt) qs = group_blocks bt qs"
proof -
  assume "k \<notin> seq_id ` set (live_seqs qs)"
  then have "map (\<lambda>q. the (map_of (AList.update k v bt) (seq_id q))) (live_seqs qs)
      = map (\<lambda>q. the (map_of bt (seq_id q))) (live_seqs qs)"
    by (intro map_cong) (auto simp: update_conv')
  then show ?thesis unfolding group_blocks_def by (rule arg_cong)
qed

lemma resident_update:
  "k \<notin> seq_id ` set (live_seqs qs) \<Longrightarrow> resident d (AList.update k v bt) qs = resident d bt qs"
  by (auto simp: resident_def update_conv')

lemma swap_seqs_rel:
  "swap_seqs src dst qs m s = Inr (m', s') \<Longrightarrow> src \<noteq> dst \<Longrightarrow> swap_inv dst m s \<Longrightarrow>
   resident src (block_tables s) qs \<Longrightarrow>
   swap_rel src dst (group_blocks (block_tables s) qs) m s m' s' \<and> swap_inv dst m' s'
   \<and> (\<forall>q \<in> set (live_seqs qs). \<exists>t. map_of (block_tables s) (seq_id q) = Some t
         \<and> map_of (block_tables s') (seq_id q) = Some (map (\<lambda>b. the (map_of m' b)) t))
   \<and> (\<forall>k. k \<notin> seq_id ` set (live_seqs qs) \<longrightarrow> map_of (block_tables s') k = map_of (block_tables s) k)"
proof (induction qs arbitrary: m s)
  case Nil
  then show ?case by (simp add: group_blocks_def swap_rel_refl)
next
  case (Cons q qs)
  show ?case
  proof (cases "status q = FINISHED")
    case True
    with Cons.prems have "swap_seqs src dst qs m s = Inr (m', s')"
      and "resident src (block_tables s) qs"
      by (simp_all add: resident_def)
    from Cons.IH[OF this(1) Cons.prems(2,3) this(2)] True show ?thesis
      by (simp add: group_blocks_def)
  next
    case False
    with Cons.prems(1) obtain t m1 nt1 s1 where look: "map_of (block_tables s) (seq_id q) = Some t"
      and tab: "swap_table src dst t (m, [], s) = Inr (m1, nt1, s1)"
      and more: "swap_seqs src dst qs m1
          (s1\<lparr>block_tables := AList.update (seq_id q) nt1 (block_tables s1)\<rparr>) = Inr (m', s')"
      by (auto split: option.splits sum.splits)
    let ?s2 = "s1\<lparr>block_tables := AList.update (seq_id q) nt1 (block_tables s1)\<rparr>"
    from Cons.prems(4) False look have tdev: "\<forall>b \<in> set t. device b = src"
      and notin: "seq_id q \<notin> seq_id ` set (live_seqs qs)"
      and res: "resident src (block_tables s) qs"
      by (auto simp: resident_def)
    from swap_table_rel[OF tab Cons.prems(2) tdev Cons.prems(3)]
    have r1: "swap_rel src dst t m s m1 s1" and i1: "swap_inv dst m1 s1"
      and nt1: "nt1 = map (\<lambda>b. the (map_of m1 b)) t" and bt1: "block_tables s1 = block_tables s"
      by simp_all
    have res2: "resident src (block_tables ?s2) qs"
      using res notin by (simp add: bt1 resident_update)
    have i2: "swap_inv dst m1 ?s2" using i1 by simp
    from Cons.IH[OF more Cons.prems(2) i2 res2]
    have r2: "swap_rel src dst (group_blocks (block_tables ?s2) qs) m1 s1 m' s'"
      and i': "swap_inv dst m' s'"
      and t2: "\<forall>q \<in> set (live_seqs qs). \<exists>t. map_of (block_tables ?s2) (seq_id q) = Some t
         \<and> map_of (block_tables s') (seq_id q) = Some (map (\<lambda>b. the (map_of m' b)) t)"
      and o2: "\<forall>k. k \<notin> seq_id ` set (live_seqs qs) \<longrightarrow>
          map_of (block_tables s') k = map_of (block_tables ?s2) k"
      by simp_all
    have gb: "group_blocks (block_tables ?s2) qs = group_blocks (block_tables s) qs"
      using notin by (simp add: bt1 group_blocks_update)
    have r: "swap_rel src dst (group_blocks (block_tables s) (q # qs)) m s m' s'"
      using swap_rel_trans[OF r1 r2[unfolded gb]] False look
      by (simp add: group_blocks_def)
    have tsub: "set t \<subseteq> dom (map_of m1)" using swap_rel_dom[OF r1] by auto
    have same: "map (\<lambda>b. the (map_of m' b)) t = nt1"
      unfolding nt1 using map_le_the[OF swap_rel_le[OF r2]] tsub by (auto simp: subset_iff)
    have tq: "map_of (block_tables s') (seq_id q) = Some (map (\<lambda>b. the (map_of m' b)) t)"
      using o2 notin by (simp add: update_conv' same)
    have trest: "\<exists>t. map_of (block_tables s) (seq_id q') = Some t
         \<and> map_of (block_tables s') (seq_id q') = Some (map (\<lambda>b. the (map_of m' b)) t)"
      if "q' \<in> set (live_seqs qs)" for q'
    proof -
      from that notin have "seq_id q' \<noteq> seq_id q" by (auto simp: image_iff)
      with t2 that show ?thesis by (auto simp: update_conv' bt1)
    qed
    have others: "map_of (block_tables s') k = map_of (block_tables s) k"
      if "k \<notin> seq_id ` set (live_seqs (q # qs))" for k
      using that o2 False by (auto simp: update_conv' bt1)
    show ?thesis using r i' tq trest others look False by auto
  qed
qed

lemma inj_on_the:
  assumes "inj_on f (dom f)" and "A \<subseteq> dom f"
  shows "inj_on (\<lambda>b. the (f b)) A"
  using assms by (auto simp: inj_on_def dom_def subset_iff) (metis option.sel)

lemma swap_seqs_balanced:
  "swap_seqs src dst qs m s = Inr (m', s') \<Longrightarrow> src \<noteq> dst \<Longrightarrow> swap_inv dst m s \<Longrightarrow>
   resident src (block_tables s) qs \<Longrightarrow> balanced s (\<lambda>_. 0) \<Longrightarrow>
   \<forall>nb \<in> ran (map_of m). device nb = dst \<and> ref_count s nb \<noteq> 0 \<Longrightarrow>
   balanced s' (\<lambda>_. 0)"
proof (induction qs arbitrary: m s)
  case Nil
  then show ?case by simp
next
  case (Cons q qs)
  show ?case
  proof (cases "status q = FINISHED")
    case True
    with Cons.prems have "swap_seqs src dst qs m s = Inr (m', s')"
      and "resident src (block_tables s) qs"
      by (simp_all add: resident_def)
    from Cons.IH[OF this(1) Cons.prems(2,3) this(2) Cons.prems(5,6)] show ?thesis .
  next
    case False
    with Cons.prems(1) obtain t m1 nt1 s1 where look: "map_of (block_tables s) (seq_id q) = Some t"
      and tab: "swap_table src dst t (m, [], s) = Inr (m1, nt1, s1)"
      and more: "swap_seqs src dst qs m1
          (s1\<lparr>block_tables := AList.update (seq_id q) nt1 (block_tables s1)\<rparr>) = Inr (m', s')"
      by (auto split: option.splits sum.splits)
    let ?s2 = "s1\<lparr>block_tables := AList.update (seq_id q) nt1 (block_tables s1)\<rparr>"
    from Cons.prems(4) False look have tdev: "\<forall>b \<in> set t. device b = src"
      and notin: "seq_id q \<notin> seq_id ` set (live_seqs qs)"
      and res: "resident src (block_tables s) qs"
      by (auto simp: resident_def)
    from swap_table_rel[OF tab Cons.prems(2) tdev Cons.prems(3)]
    have r1: "swap_rel src dst t m s m1 s1" and i1: "swap_inv dst m1 s1"
      and nt1: "nt1 = map (\<lambda>b. the (map_of m1 b)) t" and bt1: "block_tables s1 = block_tables s"
      by simp_all
    from swap_table_balanced[OF tab Cons.prems(2) tdev Cons.prems(5,6)]
    have b1: "balanced s1 (\<lambda>x. 0 + int (count_list nt1 x) - int (count_list t x))"
      and al1: "\<forall>nb \<in> ran (map_of m1). device nb = dst \<and> ref_count s1 nb \<noteq> 0"
      by auto
    have dt: "distinct t" by (rule table_distinct[OF balancedD(1)[OF Cons.prems(5)] look])
    have tsub: "set t \<subseteq> dom (map_of m1)" using swap_rel_dom[OF r1] by auto
    have inj: "inj_on (map_of m1) (dom (map_of m1))" using i1 by (simp add: swap_inv_def)
    have dn: "distinct nt1"
      unfolding nt1 using dt inj_on_the[OF inj tsub] by (simp add: distinct_map)
    have "balanced ?s2 (\<lambda>x. (0 + int (count_list nt1 x) - int (count_list t x))
        + (case map_of (block_tables s1) (seq_id q) of None \<Rightarrow> 0
            | Some t0 \<Rightarrow> int (count_list t0 x)) - int (count_list nt1 x))"
      by (rule balanced_update[OF b1 dn])
    then have b2: "balanced ?s2 (\<lambda>_. 0)"
      by (rule balanced_cong) (simp add: bt1 look)
    have res2: "resident src (block_tables ?s2) qs"
      using res notin by (simp add: bt1 resident_update)
    have i2: "swap_inv dst m1 ?s2" using i1 by simp
    have al2: "\<forall>nb \<in> ran (map_of m1). device nb = dst \<and> ref_count ?s2 nb \<noteq> 0"
      using al1 by simp
    from Cons.IH[OF more Cons.prems(2) i2 res2 b2 al2] show ?thesis .
  qed
qed

lemma invariant_swap_inv:
  assumes "manager_invariant s"
  shows "swap_inv dst [] s"
  using assms by (auto simp: manager_invariant_def pools_wf_def swap_inv_def)

lemma swap_invariant:
  assumes inv: "manager_invariant s" and sw: "swap_seqs src dst qs [] s = Inr (m', s')"
    and ne: "src \<noteq> dst" and res: "resident src (block_tables s) qs"
  shows "manager_invariant s'"
proof -
  from inv have bal: "balanced s (\<lambda>_. 0)" by (simp add: invariant_balanced)
  have "balanced s' (\<lambda>_. 0)"
    by (rule swap_seqs_balanced[OF sw ne invariant_swap_inv[OF inv] res bal]) simp
  then show ?thesis by (simp add: invariant_balanced)
qed

lemma free_list_GPU: "free_list GPU s = free_blocks (gpu_allocator s)"
  by (simp add: free_list_def allocator_def)

lemma free_list_CPU: "free_list CPU s = free_blocks (cpu_allocator s)"
  by (simp add: free_list_def allocator_def)

lemma invariant_referenced:
  assumes inv: "manager_invariant s" and look: "map_of (block_tables s) k = Some t"
    and b: "b \<in> set t"
  shows "0 < ref_count s b" and "b \<notin> set (free_list (device b) s)" and "in_pool s b"
proof -
  from b have "0 < count_list t b" using count_list_0_iff[of t b] by auto
  with refs_ge_count[OF look, of b] inv show pos: "0 < ref_count s b"
    by (simp add: manager_invariant_def ref_counts_match_def)
  with inv show pool: "in_pool s b" by (auto simp: manager_invariant_def pools_wf_def)
  with inv pos show "b \<notin> set (free_list (device b) s)"
    by (auto simp: manager_invariant_def free_iff_unreferenced_def)
qed

lemma invariant_free_block:
  assumes inv: "manager_invariant s" and b: "b \<in> set (free_list d s)"
  shows "device b = d" and "ref_count s b = 0" and "in_pool s b"
proof -
  from inv b show d: "device b = d" and p: "in_pool s b"
    by (auto simp: manager_invariant_def pools_wf_def)
  with inv b show "ref_count s b = 0"
    by (auto simp: manager_invariant_def free_iff_unreferenced_def)
qed

lemma allocate_blocks_closed:
  "n \<le> length (free_blocks (gpu_allocator s)) \<Longrightarrow>
   \<exists>new s'. allocate_blocks n k tbl s = Inr (tbl @ new, s') \<and> length new = n
     \<and> free_blocks (gpu_allocator s) = free_blocks (gpu_allocator s') @ rev new
     \<and> cpu_allocator s' = cpu_allocator s \<and> block_tables s' = block_tables s
     \<and> (\<forall>b. ref_count s' b = (if b \<in> set new then int k else ref_count s b))"
proof (induction n arbitrary: tbl s)
  case 0
  then show ?case by simp
next
  case (Suc n)
  let ?F = "free_blocks (gpu_allocator s)"
  from Suc.prems have ne: "?F \<noteq> []" by auto
  let ?s1 = "s\<lparr>gpu_allocator := (gpu_allocator s)\<lparr>free_blocks := butlast ?F\<rparr>,
               ref_count := (ref_count s)(last ?F := int k)\<rparr>"
  have step: "allocate_blocks (Suc n) k tbl s = allocate_blocks n k (tbl @ [last ?F]) ?s1"
    using ne by (simp add: allocate_on_def BlockManager_allocate_def Let_def allocator_def
        set_allocator_def)
  have "n \<le> length (free_blocks (gpu_allocator ?s1))" using Suc.prems by simp
  from Suc.IH[OF this, of "tbl @ [last ?F]"] obtain new s' where
    r: "allocate_blocks n k (tbl @ [last ?F]) ?s1 = Inr ((tbl @ [last ?F]) @ new, s')"
    and l: "length new = n"
    and f: "free_blocks (gpu_allocator ?s1) = free_blocks (gpu_allocator s') @ rev new"
    and c: "cpu_allocator s' = cpu_allocator ?s1" and bt: "block_tables s' = block_tables ?s1"
    and rc: "\<forall>b. ref_count s' b = (if b \<in> set new then int k else ref_count ?s1 b)"
    by blast
  have "?F = butlast ?F @ [last ?F]" using ne by simp
  with f have f': "?F = free_blocks (gpu_allocator s') @ rev (last ?F # new)" by simp
  show ?case
    by (intro exI[of _ "last ?F # new"] exI[of _ s'])
      (use step r l f' c bt rc in auto)
qed

lemma map_of_assign_tables:
  "map_of (assign_tables qs tbl bt) k = (if k \<in> seq_id ` set qs then Some tbl else map_of bt k)"
  by (induction qs arbitrary: bt) (auto simp: update_conv')

lemma distinct_count_list: "distinct xs \<Longrightarrow> count_list xs x = (if x \<in> set xs then 1 else 0)"
  by (induction xs) auto

lemma free_block_table_shared:
  "\<forall>b \<in> set t. int (count_list t b) < ref_count s b \<Longrightarrow>
   free_block_table s t = Inr (s\<lparr>ref_count := (\<lambda>b. ref_count s b - int (count_list t b))\<rparr>)"
proof (induction t arbitrary: s)
  case Nil
  then show ?case by simp
next
  case (Cons b rest)
  let ?s1 = "s\<lparr>ref_count := (ref_count s)(b := ref_count s b - 1)\<rparr>"
  from Cons.prems have big: "1 < ref_count s b" by auto
  have fr: "free_on d s b = Inr ?s1" for d
    using big by (cases d)
      (simp_all add: free_on_def BlockManager_free_def Let_def allocator_def set_allocator_def)
  have step: "free_block_table s (b # rest) = free_block_table ?s1 rest"
    by (simp add: fr)
  have "\<forall>x \<in> set rest. int (count_list rest x) < ref_count ?s1 x"
    using Cons.prems by auto
  from Cons.IH[OF this] have
    "free_block_table ?s1 rest
      = Inr (?s1\<lparr>ref_count := (\<lambda>x. ref_count ?s1 x - int (count_list rest x))\<rparr>)" .
  moreover have "(\<lambda>x. ref_count ?s1 x - int (count_list rest x))
      = (\<lambda>x. ref_count s x - int (count_list (b # rest) x))"
    by (auto simp: fun_eq_iff)
  ultimately show ?case using step by simp
qed

lemmas manager_code =
  allocate_def allocate_on_def free_on_def BlockManager_allocate_def BlockManager_free_def
  allocator_def set_allocator_def num_seqs_def Let_def append_slot_def fork_def free_def
  swap_in_def swap_out_def reset_def block_number_mapping_def can_allocate_def
  get_num_free_blocks_def

lemma example_initial_init: "BlockSpaceManager_init 8 4 2 = Inr example_initial"
  by (simp add: BlockSpaceManager_init_def BlockManager_init_def example_initial_def upt_rec)

lemma example_manager_reached:
  "\<exists>s1. allocate example_initial \<lparr>group_id = 1, seqs = [example_seq 1 1]\<rparr> = Inr s1
     \<and> allocate s1 \<lparr>group_id = 2, seqs = [example_seq 2 1, example_seq 3 1]\<rparr> = Inr example_manager"
  by (simp add: manager_code example_initial_def example_manager_def example_seq_def)

lemma example_manager_invariant: "manager_invariant example_manager"
proof -
  from example_manager_reached obtain s1 where
    a1: "allocate example_initial \<lparr>group_id = 1, seqs = [example_seq 1 1]\<rparr> = Inr s1"
    and a2: "allocate s1 \<lparr>group_id = 2, seqs = [example_seq 2 1, example_seq 3 1]\<rparr>
               = Inr example_manager"
    by blast
  have i0: "manager_invariant example_initial"
    by (rule init_invariant[OF example_initial_init])
  have i1: "manager_invariant s1"
    by (rule allocate_invariant[OF i0 a1]) (simp_all add: example_initial_def)
  have bt1: "block_tables s1 = [(1, [PhysicalTokenBlock GPU 3])]"
    using a1 by (auto simp: manager_code example_initial_def example_seq_def)
  show ?thesis
    by (rule allocate_invariant[OF i1 a2]) (simp_all add: bt1 example_seq_def)
qed

lemmas example_defs =
  example_initial_def example_manager_def example_seq_def example_group_def example_block_def
  example_shared_def example_pair_def

lemma swap_table_single_ok:
  assumes ne: "src \<noteq> dst" and dev: "device b = src" and si: "swap_inv dst m s"
    and cap: "card (set (b # rest) - dom (map_of m)) \<le> length (free_list dst s)"
    and pos: "0 < ref_count s b"
  shows "\<exists>m1 nt1 s2. swap_table src dst [b] (m, nt, s) = Inr (m1, nt1, s2)
     \<and> card (set rest - dom (map_of m1)) \<le> length (free_list dst s2)"
proof (cases "map_of m b")
  case (Some nb)
  from si Some have "device nb = dst" by (auto simp: swap_inv_def ran_def)
  with dev ne have nbb: "nb \<noteq> b" by auto
  let ?s1 = "s\<lparr>ref_count := (ref_count s)(nb := ref_count s nb + 1)\<rparr>"
  have "ref_count ?s1 b \<noteq> 0" using pos nbb by simp
  from free_on_ok[OF this, of src] obtain s2 where fr: "free_on src ?s1 b = Inr s2" by blast
  have fl: "free_list dst s2 = free_list dst s" using free_on_Inr(5)[OF fr, of dst] ne by simp
  have "set rest - dom (map_of m) \<subseteq> set (b # rest) - dom (map_of m)" by auto
  then have "card (set rest - dom (map_of m)) \<le> card (set (b # rest) - dom (map_of m))"
    by (intro card_mono) auto
  with cap fl Some fr show ?thesis by simp
next
  case None
  define X where "X = set (b # rest) - dom (map_of m)"
  have bin: "b \<in> X" using None by (auto simp: dom_def X_def)
  have "finite X" by (simp add: X_def)
  with bin have "0 < card X" by (auto simp: card_gt_0_iff)
  moreover have "card X \<le> length (free_list dst s)" using cap by (simp add: X_def)
  ultimately have nonempty: "free_list dst s \<noteq> []" by auto
  from allocate_on_ok[OF this] obtain s1 where al: "allocate_on dst s = Inr (last (free_list dst s), s1)"
    by blast
  let ?nb = "last (free_list dst s)"
  note A = allocate_on_Inr[OF al]
  from si nonempty have "device ?nb = dst" by (auto simp: swap_inv_def)
  with dev ne have nbb: "?nb \<noteq> b" by auto
  have "ref_count s1 b \<noteq> 0" using pos nbb by (simp add: A(2))
  from free_on_ok[OF this, of src] obtain s2 where fr: "free_on src s1 b = Inr s2" by blast
  have fl: "free_list dst s = free_list dst s2 @ [?nb]"
    using free_on_Inr(5)[OF fr, of dst] ne A(1) by simp
  have "set rest - dom (map_of (AList.update b ?nb m)) = X - {b}"
    by (auto simp: update_conv' X_def)
  then have "card (set rest - dom (map_of (AList.update b ?nb m)))
      = card (set (b # rest) - dom (map_of m)) - 1"
    using bin by (simp add: card_Diff_singleton X_def)
  moreover have "length (free_list dst s2) = length (free_list dst s) - 1"
    by (subst fl) simp
  ultimately have "card (set rest - dom (map_of (AList.update b ?nb m))) \<le> length (free_list dst s2)"
    using cap by linarith
  with None al fr show ?thesis by simp
qed

lemma swap_rel_src_count:
  "swap_rel src dst P m s m' s' \<Longrightarrow> device x = src \<Longrightarrow>
   ref_count s' x = ref_count s x - int (count_list P x)"
  by (simp add: swap_rel_def)

lemma swap_table_ok:
  "src \<noteq> dst \<Longrightarrow> \<forall>b \<in> set t. device b = src \<Longrightarrow> swap_inv dst m s \<Longrightarrow>
   card (set (t @ G) - dom (map_of m)) \<le> length (free_list dst s) \<Longrightarrow>
   \<forall>x \<in> set t. int (count_list t x) \<le> ref_count s x \<Longrightarrow>
   \<exists>m' nt' s'. swap_table src dst t (m, nt, s) = Inr (m', nt', s')
     \<and> card (set G - dom (map_of m')) \<le> length (free_list dst s')"
proof (induction t arbitrary: m nt s)
  case Nil
  then show ?case by simp
next
  case (Cons b rest)
  have dev: "device b = src" using Cons.prems(2) by simp
  have pos: "0 < ref_count s b" using Cons.prems(5) by force
  have cap: "card (set (b # (rest @ G)) - dom (map_of m)) \<le> length (free_list dst s)"
    using Cons.prems(4) by simp
  from swap_table_single_ok[OF Cons.prems(1) dev Cons.prems(3) cap pos, of nt]
  obtain m1 nt1 s2 where one: "swap_table src dst [b] (m, nt, s) = Inr (m1, nt1, s2)"
    and cap1: "card (set (rest @ G) - dom (map_of m1)) \<le> length (free_list dst s2)"
    by blast
  note S = swap_table_single[OF one Cons.prems(1) dev Cons.prems(3)]
  have cnt: "\<forall>x \<in> set rest. int (count_list rest x) \<le> ref_count s2 x"
  proof
    fix x assume x: "x \<in> set rest"
    with Cons.prems(2) have dx: "device x = src" by simp
    from Cons.prems(5) x have "int (count_list (b # rest) x) \<le> ref_count s x" by simp
    with swap_rel_src_count[OF S(1) dx] show "int (count_list rest x) \<le> ref_count s2 x"
      by (auto split: if_splits)
  qed
  have tier: "\<forall>b \<in> set rest. device b = src" using Cons.prems(2) by simp
  from Cons.IH[OF Cons.prems(1) tier S(2) cap1 cnt, of nt1]
  obtain m' nt' s' where "swap_table src dst rest (m1, nt1, s2) = Inr (m', nt', s')"
    and "card (set G - dom (map_of m')) \<le> length (free_list dst s')"
    by blast
  with one show ?case by (subst swap_table_Cons) auto
qed

lemma swap_seqs_ok:
  "src \<noteq> dst \<Longrightarrow> swap_inv dst m s \<Longrightarrow> resident src (block_tables s) qs \<Longrightarrow>
   \<forall>q \<in> set (live_seqs qs). map_of (block_tables s) (seq_id q) \<noteq> None \<Longrightarrow>
   card (set (group_blocks (block_tables s) qs) - dom (map_of m)) \<le> length (free_list dst s) \<Longrightarrow>
   \<forall>x. device x = src \<longrightarrow> int (count_list (group_blocks (block_tables s) qs) x) \<le> ref_count s x \<Longrightarrow>
   \<exists>m' s'. swap_seqs src dst qs m s = Inr (m', s')"
proof (induction qs arbitrary: m s)
  case Nil
  then show ?case by simp
next
  case (Cons q qs)
  show ?case
  proof (cases "status q = FINISHED")
    case True
    with Cons.prems have "resident src (block_tables s) qs"
      and "\<forall>q \<in> set (live_seqs qs). map_of (block_tables s) (seq_id q) \<noteq> None"
      and "card (set (group_blocks (block_tables s) qs) - dom (map_of m)) \<le> length (free_list dst s)"
      and "\<forall>x. device x = src \<longrightarrow> int (count_list (group_blocks (block_tables s) qs) x) \<le> ref_count s x"
      by (simp_all add: resident_def group_blocks_def)
    from Cons.IH[OF Cons.prems(1,2) this] True show ?thesis by simp
  next
    case False
    with Cons.prems(4) obtain t where look: "map_of (block_tables s) (seq_id q) = Some t"
      by auto
    let ?G = "group_blocks (block_tables s) qs"
    have gb: "group_blocks (block_tables s) (q # qs) = t @ ?G"
      using False look by (simp add: group_blocks_def)
    from Cons.prems(3) False look have tdev: "\<forall>b \<in> set t. device b = src"
      and notin: "seq_id q \<notin> seq_id ` set (live_seqs qs)"
      and res: "resident src (block_tables s) qs"
      by (auto simp: resident_def)
    have cap: "card (set (t @ ?G) - dom (map_of m)) \<le> length (free_list dst s)"
      using Cons.prems(5) by (simp add: gb)
    have cnt: "\<forall>x \<in> set t. int (count_list t x) \<le> ref_count s x"
    proof
      fix x assume "x \<in> set t"
      with tdev have "device x = src" by simp
      with Cons.prems(6) have "int (count_list (t @ ?G) x) \<le> ref_count s x" by (simp add: gb)
      then show "int (count_list t x) \<le> ref_count s x" by simp
    qed
    from swap_table_ok[OF Cons.prems(1) tdev Cons.prems(2) cap cnt, of "[]"]
    obtain m1 nt1 s1 where tab: "swap_table src dst t (m, [], s) = Inr (m1, nt1, s1)"
      and cap1: "card (set ?G - dom (map_of m1)) \<le> length (free_list dst s1)"
      by blast
    from swap_table_rel[OF tab Cons.prems(1) tdev Cons.prems(2)]
    have r1: "swap_rel src dst t m s m1 s1" and i1: "swap_inv dst m1 s1"
      and bt1: "block_tables s1 = block_tables s"
      by simp_all
    let ?s2 = "s1\<lparr>block_tables := AList.update (seq_id q) nt1 (block_tables s1)\<rparr>"
    have gb2: "group_blocks (AList.update (seq_id q) nt1 (block_tables s1)) qs = ?G"
      using notin by (simp add: bt1 group_blocks_update)
    have res2: "resident src (block_tables ?s2) qs"
      using res notin by (simp add: bt1 resident_update)
    have i2: "swap_inv dst m1 ?s2" using i1 by simp
    have has2: "\<forall>q' \<in> set (live_seqs qs). map_of (block_tables ?s2) (seq_id q') \<noteq> None"
      using Cons.prems(4) False by (auto simp: update_conv' bt1)
    have cap2: "card (set (group_blocks (block_tables ?s2) qs) - dom (map_of m1))
        \<le> length (free_list dst ?s2)"
      using cap1 by (simp add: gb2)
    have cnt2: "\<forall>x. device x = src \<longrightarrow>
        int (count_list (group_blocks (block_tables ?s2) qs) x) \<le> ref_count ?s2 x"
    proof (intro allI impI)
      fix x assume dx: "device x = src"
      with Cons.prems(6) have "int (count_list (t @ ?G) x) \<le> ref_count s x" by (simp add: gb)
      with swap_rel_src_count[OF r1 dx]
      show "int (count_list (group_blocks (block_tables ?s2) qs) x) \<le> ref_count ?s2 x"
        by (simp add: gb2)
    qed
    from Cons.IH[OF Cons.prems(1) i2 res2 has2 cap2 cnt2] tab look False show ?thesis
      by simp
  qed
qed

lemma ran_the: "ran f = (\<lambda>b. the (f b)) ` dom f"
  by (auto simp: ran_def dom_def image_iff) force

lemma group_blocks_device:
  assumes res: "resident d bt qs"
    and has: "\<forall>q \<in> set (live_seqs qs). map_of bt (seq_id q) \<noteq> None"
    and b: "b \<in> set (group_blocks bt qs)"
  shows "device b = d"
proof -
  from b obtain q where q: "q \<in> set (live_seqs qs)" and bin: "b \<in> set (the (map_of bt (seq_id q)))"
    by (auto simp: group_blocks_def)
  from has q obtain t where "map_of bt (seq_id q) = Some t" by auto
  with res q bin show ?thesis by (auto simp: resident_def)
qed

lemma table_in_group:
  assumes "q \<in> set (live_seqs qs)" and "map_of bt (seq_id q) = Some t"
  shows "set t \<subseteq> set (group_blocks bt qs)"
  using assms by (auto simp: group_blocks_def)

lemma swap_closed:
  assumes inv: "manager_invariant s" and ne: "src \<noteq> dst"
    and res: "resident src (block_tables s) qs"
    and has: "\<forall>q \<in> set (live_seqs qs). map_of (block_tables s) (seq_id q) \<noteq> None"
    and G: "G = group_blocks (block_tables s) qs"
    and closed: "\<forall>b \<in> set G. ref_count s b = int (count_list G b)"
    and cap: "card (set G) \<le> length (free_list dst s)"
  shows "\<exists>m' s' \<mu> news pushed. swap_seqs src dst qs [] s = Inr (m', s') \<and> manager_invariant s'
     \<and> inj_on \<mu> (set G) \<and> (\<forall>b \<in> set G. device (\<mu> b) = dst)
     \<and> free_list dst s = free_list dst s' @ rev news \<and> set news = \<mu> ` set G
     \<and> length news = card (set G)
     \<and> free_list src s' = free_list src s @ pushed \<and> set pushed = set G
     \<and> length pushed = card (set G)
     \<and> (\<forall>q \<in> set (live_seqs qs). \<exists>t. map_of (block_tables s) (seq_id q) = Some t
           \<and> map_of (block_tables s') (seq_id q) = Some (map \<mu> t))
     \<and> (\<forall>k. k \<notin> seq_id ` set (live_seqs qs) \<longrightarrow>
           map_of (block_tables s') k = map_of (block_tables s) k)
     \<and> (\<forall>b \<in> set G. ref_count s' b = 0 \<and> ref_count s' (\<mu> b) = ref_count s b)
     \<and> (\<forall>x. x \<notin> set G \<longrightarrow> x \<notin> \<mu> ` set G \<longrightarrow> ref_count s' x = ref_count s x)"
proof -
  have gdev: "device b = src" if "b \<in> set G" for b
    using group_blocks_device[OF res has] that G by simp
  have nonneg: "0 \<le> ref_count s x" for x
    using inv by (simp add: manager_invariant_def ref_counts_match_def)
  have cnt: "\<forall>x. device x = src \<longrightarrow>
      int (count_list (group_blocks (block_tables s) qs) x) \<le> ref_count s x"
  proof (intro allI impI)
    fix x
    show "int (count_list (group_blocks (block_tables s) qs) x) \<le> ref_count s x"
      using closed nonneg[of x] by (cases "x \<in> set G") (auto simp: G)
  qed
  note si = invariant_swap_inv[OF inv, of dst]
  have cap': "card (set (group_blocks (block_tables s) qs) - dom (map_of []))
      \<le> length (free_list dst s)"
    using cap by (simp add: G)
  from swap_seqs_ok[OF ne si res has cap' cnt] obtain m' s' where
    sw: "swap_seqs src dst qs [] s = Inr (m', s')" by blast
  have inv': "manager_invariant s'" by (rule swap_invariant[OF inv sw ne res])
  from swap_seqs_rel[OF sw ne si res]
  have R: "swap_rel src dst G [] s m' s'" and I: "swap_inv dst m' s'"
    and T: "\<forall>q \<in> set (live_seqs qs). \<exists>t. map_of (block_tables s) (seq_id q) = Some t
         \<and> map_of (block_tables s') (seq_id q) = Some (map (\<lambda>b. the (map_of m' b)) t)"
    and O: "\<forall>k. k \<notin> seq_id ` set (live_seqs qs) \<longrightarrow>
         map_of (block_tables s') k = map_of (block_tables s) k"
    by (simp_all add: G)
  define \<mu> where "\<mu> = (\<lambda>b. the (map_of m' b))"
  from R have dom: "dom (map_of m') = set G"
    and news: "\<exists>news. free_list dst s = free_list dst s' @ rev news
                 \<and> set news = ran (map_of m')"
    and pushed: "\<exists>pushed. free_list src s' = free_list src s @ pushed \<and> set pushed \<subseteq> set G"
    and rc_src: "\<And>x. device x = src \<Longrightarrow> ref_count s' x = ref_count s x - int (count_list G x)"
    and rc_new: "\<And>ob nb. map_of m' ob = Some nb \<Longrightarrow> ref_count s' nb = int (count_list G ob)"
    and rc_other: "\<And>x. device x \<noteq> src \<Longrightarrow> x \<notin> ran (map_of m') \<Longrightarrow>
          ref_count s' x = ref_count s x"
    and pool: "\<And>x. in_pool s' x = in_pool s x"
    unfolding swap_rel_def by auto
  from I have rdev: "\<And>nb. nb \<in> ran (map_of m') \<Longrightarrow> device nb = dst"
    and minj: "inj_on (map_of m') (dom (map_of m'))"
    unfolding swap_inv_def by blast+
  have inj: "inj_on \<mu> (set G)"
    unfolding \<mu>_def using inj_on_the[OF minj, of "set G"] dom by simp
  have ran: "ran (map_of m') = \<mu> ` set G"
    unfolding \<mu>_def using ran_the[of "map_of m'"] dom by simp
  have look: "map_of m' b = Some (\<mu> b)" if "b \<in> set G" for b
  proof -
    from that dom have "b \<in> dom (map_of m')" by simp
    then show ?thesis by (auto simp: \<mu>_def)
  qed
  have mdev: "device (\<mu> b) = dst" if "b \<in> set G" for b
    using rdev ran that by auto
  from news obtain nl where nl: "free_list dst s = free_list dst s' @ rev nl"
    "set nl = \<mu> ` set G" using ran by auto
  have "distinct (free_list dst s)"
    using inv by (auto simp: manager_invariant_def pools_wf_def)
  with nl(1) have "distinct nl" by (metis distinct_append distinct_rev)
  then have nlen: "length nl = card (set G)"
    using distinct_card[of nl] nl(2) card_image[OF inj] by simp
  from pushed obtain pl where pl: "free_list src s' = free_list src s @ pl" "set pl \<subseteq> set G"
    by blast
  have "distinct (free_list src s')"
    using inv' by (auto simp: manager_invariant_def pools_wf_def)
  with pl(1) have dpl: "distinct pl" by simp
  have zero: "ref_count s' b = 0" if "b \<in> set G" for b
    using rc_src[OF gdev[OF that]] closed that by simp
  have "b \<in> set pl" if b: "b \<in> set G" for b
  proof -
    from b have "0 < count_list G b" using count_list_0_iff[of G b] by auto
    with closed b have nz: "ref_count s b \<noteq> 0" by auto
    with inv have ps: "in_pool s b" by (auto simp: manager_invariant_def pools_wf_def)
    with inv nz gdev[OF b] have "b \<notin> set (free_list src s)"
      by (auto simp: manager_invariant_def free_iff_unreferenced_def)
    moreover from inv' ps pool[of b] zero[OF b] gdev[OF b] have "b \<in> set (free_list src s')"
      by (auto simp: manager_invariant_def free_iff_unreferenced_def)
    ultimately show ?thesis using pl(1) by auto
  qed
  with pl(2) have spl: "set pl = set G" by auto
  with dpl have plen: "length pl = card (set G)" using distinct_card[of pl] by simp
  have carried: "ref_count s' (\<mu> b) = ref_count s b" if "b \<in> set G" for b
    using rc_new[OF look[OF that]] closed that by simp
  have other: "ref_count s' x = ref_count s x" if "x \<notin> set G" "x \<notin> \<mu> ` set G" for x
  proof (cases "device x = src")
    case True
    from rc_src[OF True] that(1) show ?thesis by simp
  next
    case False
    from rc_other[OF False] that(2) ran show ?thesis by simp
  qed
  show ?thesis
    apply (rule exI[of _ m'], rule exI[of _ s'], rule exI[of _ \<mu>], rule exI[of _ nl],
        rule exI[of _ pl], intro conjI)
                 apply (rule sw)
                apply (rule inv')
               apply (rule inj)
              apply (use mdev in blast)
             apply (rule nl(1))
            apply (rule nl(2))
           apply (rule nlen)
          apply (rule pl(1))
         apply (rule spl)
        apply (rule plen)
       apply (use T in \<open>simp add: \<mu>_def\<close>)
      apply (rule O)
     apply (use zero carried in blast)
    apply (use other in blast)
    done
qed

lemma fold_insert_set:
  "distinct acc \<Longrightarrow> distinct (fold List.insert t acc) \<and> set (fold List.insert t acc) = set t \<union> set acc"
  by (induction t arbitrary: acc) auto

lemma get_physical_blocks_loop_Inr:
  "get_physical_blocks_loop bt qs acc = Inr blocks \<Longrightarrow> distinct acc \<Longrightarrow>
   (\<forall>q \<in> set (live_seqs qs). map_of bt (seq_id q) \<noteq> None) \<and> distinct blocks
   \<and> set blocks = set acc \<union> set (group_blocks bt qs)"
proof (induction qs arbitrary: acc)
  case Nil
  then show ?case by (simp add: group_blocks_def)
next
  case (Cons q qs)
  show ?case
  proof (cases "status q = FINISHED")
    case True
    with Cons show ?thesis by (simp add: group_blocks_def)
  next
    case False
    with Cons.prems(1) obtain t where look: "map_of bt (seq_id q) = Some t"
      and rest: "get_physical_blocks_loop bt qs (fold List.insert t acc) = Inr blocks"
      by (auto split: option.splits)
    note F = fold_insert_set[OF Cons.prems(2), of t]
    from Cons.IH[OF rest] F look False show ?thesis
      by (auto simp: group_blocks_def)
  qed
qed

lemma bij_extend:
  assumes inj: "inj_on f A" and img: "f ` A = A"
  shows "bij (\<lambda>x. if x \<in> A then f x else x)"
proof (rule bijI)
  show "inj (\<lambda>x. if x \<in> A then f x else x)"
  proof (rule injI)
    fix x y assume e: "(if x \<in> A then f x else x) = (if y \<in> A then f y else y)"
    show "x = y"
    proof (cases "x \<in> A")
      case True
      then have fx: "f x \<in> A" using img by blast
      show ?thesis
      proof (cases "y \<in> A")
        case yA: True
        with True e inj show ?thesis by (auto simp: inj_on_def)
      next
        case False
        with True e fx show ?thesis by auto
      qed
    next
      case False
      show ?thesis
      proof (cases "y \<in> A")
        case True
        then have "f y \<in> A" using img by blast
        with True False e show ?thesis by auto
      next
        case yA: False
        with False e show ?thesis by simp
      qed
    qed
  qed
  show "surj (\<lambda>x. if x \<in> A then f x else x)"
  proof (rule surjI)
    fix y
    show "(\<lambda>x. if x \<in> A then f x else x) (if y \<in> A then (SOME x. x \<in> A \<and> f x = y) else y) = y"
    proof (cases "y \<in> A")
      case True
      with img have "y \<in> f ` A" by simp
      then have "\<exists>x. x \<in> A \<and> f x = y" by auto
      then have "(SOME x. x \<in> A \<and> f x = y) \<in> A \<and> f (SOME x. x \<in> A \<and> f x = y) = y"
        by (rule someI_ex)
      with True show ?thesis by simp
    next
      case False
      then show ?thesis by simp
    qed
  qed
qed

lemma group_blocks_mapped:
  assumes "\<forall>q \<in> set (live_seqs qs). \<exists>t. map_of bt (seq_id q) = Some t
             \<and> map_of bt' (seq_id q) = Some (map f t)"
  shows "group_blocks bt' qs = map f (group_blocks bt qs)"
proof -
  have "map (\<lambda>q. the (map_of bt' (seq_id q))) (live_seqs qs)
      = map (\<lambda>q. map f (the (map_of bt (seq_id q)))) (live_seqs qs)"
    using assms by (intro map_cong) auto
  then have "concat (map (\<lambda>q. the (map_of bt' (seq_id q))) (live_seqs qs))
      = concat (map (\<lambda>q. map f (the (map_of bt (seq_id q)))) (live_seqs qs))"
    by (rule arg_cong)
  also have "\<dots> = map f (concat (map (\<lambda>q. the (map_of bt (seq_id q))) (live_seqs qs)))"
    by (simp add: map_concat comp_def)
  finally show ?thesis unfolding group_blocks_def .
qed

lemma bij_numbers:
  assumes bij: "bij f" and dev: "\<And>b. device (f b) = device b"
  shows "bij (\<lambda>n. block_number (f (PhysicalTokenBlock d n)))"
proof (rule bijI)
  show "inj (\<lambda>n. block_number (f (PhysicalTokenBlock d n)))"
  proof (rule injI)
    fix n n'
    assume "block_number (f (PhysicalTokenBlock d n)) = block_number (f (PhysicalTokenBlock d n'))"
    moreover have "device (f (PhysicalTokenBlock d n)) = device (f (PhysicalTokenBlock d n'))"
      by (simp add: dev)
    ultimately have "f (PhysicalTokenBlock d n) = f (PhysicalTokenBlock d n')"
      by (simp add: PhysicalTokenBlock.expand)
    with bij show "n = n'" by (auto dest: bij_is_inj[THEN injD])
  qed
  show "surj (\<lambda>n. block_number (f (PhysicalTokenBlock d n)))"
    unfolding surj_def
  proof
    fix k
    from bij obtain b where b: "f b = PhysicalTokenBlock d k"
      by (metis bij_is_surj surjD)
    with dev[of b] have "device b = d" by simp
    then have "b = PhysicalTokenBlock d (block_number b)" by (cases b) simp
    with b have "k = block_number (f (PhysicalTokenBlock d (block_number b)))" by simp
    then show "\<exists>n. k = block_number (f (PhysicalTokenBlock d n))" by blast
  qed
qed

lemma example_shared_reached:
  "\<exists>s0 s1 s2. BlockSpaceManager_init 8 3 3 = Inr s0
     \<and> allocate s0 \<lparr>group_id = 1, seqs = [example_seq 1 1, example_seq 2 1]\<rparr> = Inr s1
     \<and> block_tables s0 = []
     \<and> append_slot s1 (example_seq 1 2) = Inr (None, s2)
     \<and> append_slot s2 (example_seq 2 2) = Inr (None, example_shared)"
  by (simp add: manager_code example_defs BlockSpaceManager_init_def BlockManager_init_def
      upt_rec fun_upd_twist numeral_2_eq_2)

lemma example_shared_invariant: "manager_invariant example_shared"
proof -
  from example_shared_reached obtain s0 s1 s2 where
    i: "BlockSpaceManager_init 8 3 3 = Inr s0"
    and a: "allocate s0 \<lparr>group_id = 1, seqs = [example_seq 1 1, example_seq 2 1]\<rparr> = Inr s1"
    and e: "block_tables s0 = []"
    and p1: "append_slot s1 (example_seq 1 2) = Inr (None, s2)"
    and p2: "append_slot s2 (example_seq 2 2) = Inr (None, example_shared)"
    by blast
  have i0: "manager_invariant s0" by (rule init_invariant[OF i])
  have i1: "manager_invariant s1"
    by (rule allocate_invariant[OF i0 a]) (simp_all add: e example_defs)
  have i2: "manager_invariant s2" by (rule append_slot_invariant[OF i1 p1])
  show ?thesis by (rule append_slot_invariant[OF i2 p2])
qed

section \<open>Lemmas on the scheduler\<close>

text \<open>The equations that evaluate a call of \<open>step\<close> on a concrete state.\<close>

lemmas scheduler_code =
  step_def phases_1_to_3_def phase1_def phase2_def phase3_def preempt_loop.simps
  Scheduler_append_def Scheduler_swap_in_def Scheduler_swap_out_def Scheduler_allocate_def
  can_append_def can_swap_in_def can_swap_out_def get_physical_blocks_def get_block_table_def
  dict_update_def py_index_def py_slice_to_def change_status_def set_all_status_def
  count_running_tokens_def MAX_NUM_BATCHED_TOKENS_def get_len_def get_token_ids_def
  Scheduler_init_def BlockSpaceManager_init_def BlockManager_init_def

lemmas scheduler_example_defs =
  example_params_def example_scheduler_def example_trio_def example_beam_def example_full_def
  example_idle_def example_prompt_def example_inputs_def example_copied_def

text \<open>
  The example states are reached from a new scheduler by calls of \<open>step\<close>.  Between two
  calls \<^verbatim>\<open>post_step\<close> adds one to every entry of \<open>num_steps\<close> and appends one token to
  every sequence; the blocks of the examples have room for it, and phases 1 to 3 read
  neither the step counts nor the tokens of a running sequence.
\<close>

lemma example_beam_reached:
  "allocate example_initial example_trio = Inr (block_manager example_beam)"
  by (simp add: manager_code example_defs scheduler_example_defs)

lemma example_beam_invariant: "manager_invariant (block_manager example_beam)"
  by (rule allocate_invariant[OF init_invariant[OF example_initial_init] example_beam_reached])
     (simp_all add: example_defs scheduler_example_defs)



lemma example_scheduler_reached:
  "\<exists>sch0 plan1 sch1 plan2 sch2.
     Scheduler_init 8 4 4 = Inr sch0
   \<and> step sch0
        [(\<lparr>group_id = 1, seqs = [(example_seq 1 1)\<lparr>status := PENDING\<rparr>,
                                 (example_seq 2 1)\<lparr>status := PENDING\<rparr>]\<rparr>, example_params),
         (\<lparr>group_id = 2, seqs = [(example_seq 3 1)\<lparr>status := PENDING\<rparr>]\<rparr>, example_params)]
       = Inr (plan1, sch1)
   \<and> step (sch1\<lparr>num_steps := [(1, 1), (2, 1)]\<rparr>) [] = Inr (plan2, sch2)
   \<and> blocks_to_swap_in plan2 = [] \<and> blocks_to_swap_out plan2 = []
   \<and> blocks_to_copy plan2 = [(3, 1)]
   \<and> example_scheduler = sch2\<lparr>num_steps := [(1, 2), (2, 2)]\<rparr>"
  by (simp add: scheduler_code manager_code example_defs scheduler_example_defs upt_rec
      numeral_2_eq_2 numeral_3_eq_3 fun_upd_twist)


lemma example_full_reached:
  "\<exists>sch0 plan1 sch1 plan2 sch2.
     Scheduler_init 8 4 4 = Inr sch0
   \<and> step sch0
        [(\<lparr>group_id = 1, seqs = [example_prompt 1 1, example_prompt 2 1, example_prompt 3 1]\<rparr>,
          example_params)]
       = Inr (plan1, sch1)
   \<and> step (sch1\<lparr>num_steps := [(1, 1)]\<rparr>)
        [(\<lparr>group_id = 2, seqs = [example_prompt 4 1]\<rparr>, example_params)]
       = Inr (plan2, sch2)
   \<and> example_full = sch2\<lparr>num_steps := [(1, 2), (2, 1)]\<rparr>"
  by (simp add: scheduler_code manager_code example_defs scheduler_example_defs upt_rec
      numeral_2_eq_2 numeral_3_eq_3 fun_upd_twist)

lemma example_idle_init: "Scheduler_init 8 4 2 = Inr example_idle"
  by (simp add: scheduler_code example_defs scheduler_example_defs upt_rec
      numeral_2_eq_2 numeral_3_eq_3)

lemma example_beam_step_reached:
  "\<exists>sch0 plan sch1.
     Scheduler_init 8 4 2 = Inr sch0
   \<and> step sch0
        [(\<lparr>group_id = 1, seqs = [example_prompt 1 1, example_prompt 2 1, example_prompt 3 1]\<rparr>,
          example_params)]
       = Inr (plan, sch1)
   \<and> example_beam = sch1\<lparr>num_steps := [(1, 1)]\<rparr>"
  by (simp add: scheduler_code manager_code example_defs scheduler_example_defs upt_rec
      numeral_2_eq_2 numeral_3_eq_3 fun_upd_twist)

lemma example_copied_reached:
  "\<exists>plan sch1. step example_beam [] = Inr (plan, sch1)
     \<and> example_copied = sch1\<lparr>num_steps := [(1, 2)]\<rparr>"
  by (simp add: scheduler_code manager_code example_defs scheduler_example_defs
      fun_upd_twist)

text \<open>
  The copy map is a dictionary: its keys stay distinct through every loop of \<open>step\<close>.
\<close>

lemma append_loop_keys:
  "Scheduler_append_loop qs btc bm = Inr (btc', bm') \<Longrightarrow> distinct (map fst btc) \<Longrightarrow>
   distinct (map fst btc')"
proof (induction qs arbitrary: btc bm)
  case Nil
  then show ?case by simp
next
  case (Cons q qs)
  show ?case
  proof (cases "status q = FINISHED")
    case True
    with Cons show ?thesis by simp
  next
    case False
    with Cons.prems(1) obtain r bm1 where ap: "append_slot bm q = Inr (r, bm1)"
      by (auto split: sum.splits)
    show ?thesis
    proof (cases r)
      case None
      with Cons.prems(1) False ap have "Scheduler_append_loop qs btc bm1 = Inr (btc', bm')"
        by simp
      from Cons.IH[OF this Cons.prems(2)] show ?thesis .
    next
      case (Some p)
      obtain a b where p: "p = (a, b)" by (cases p)
      with Some Cons.prems(1) False ap
      have "Scheduler_append_loop qs (AList.update a b btc) bm1 = Inr (btc', bm')"
        by simp
      from Cons.IH[OF this] Cons.prems(2) show ?thesis by (simp add: distinct_update)
    qed
  qed
qed

lemma Scheduler_append_keys:
  "Scheduler_append sch g btc = Inr (sch', btc') \<Longrightarrow> distinct (map fst btc) \<Longrightarrow>
   distinct (map fst btc')"
  by (auto simp: Scheduler_append_def split: sum.splits dest: append_loop_keys)

lemma reserve_loop_keys:
  "reserve_loop rs i v sch bso btc = Inr (v', sch', bso', btc') \<Longrightarrow> distinct (map fst btc) \<Longrightarrow>
   distinct (map fst btc')"
proof (induction rs arbitrary: i v sch bso btc)
  case Nil
  then show ?case by simp
next
  case (Cons g rs)
  show ?case
  proof (cases "int i > v")
    case True
    with Cons.prems show ?thesis by simp
  next
    case False
    with Cons.prems(1) obtain c v1 sch1 bso1 where
      pl: "preempt_loop i g v sch bso = Inr (c, v1, sch1, bso1)"
      by (auto split: sum.splits)
    show ?thesis
    proof (cases c)
      case True
      with Cons.prems(1) False pl obtain sch2 btc1 where
        ap: "Scheduler_append sch1 g btc = Inr (sch2, btc1)"
        and rest: "reserve_loop rs (Suc i) v1 sch2 bso1 btc1 = Inr (v', sch', bso', btc')"
        by (auto split: sum.splits)
      from Cons.IH[OF rest Scheduler_append_keys[OF ap Cons.prems(2)]] show ?thesis .
    next
      case nc: False
      with Cons.prems(1) False pl
      have "reserve_loop rs (Suc i) v1 sch1 bso1 btc = Inr (v', sch', bso', btc')"
        by simp
      from Cons.IH[OF this Cons.prems(2)] show ?thesis .
    qed
  qed
qed

lemma swap_in_loop_keys:
  "swap_in_loop gs i sch bsi btc = Inr (sch', bsi', btc') \<Longrightarrow> distinct (map fst btc) \<Longrightarrow>
   distinct (map fst btc')"
proof (induction gs arbitrary: i sch bsi btc)
  case Nil
  then show ?case by simp
next
  case (Cons g gs)
  from Cons.prems(1) obtain ok where ok: "can_swap_in (block_manager sch) g = Inr ok"
    by (auto split: sum.splits)
  show ?case
  proof (cases ok)
    case True
    with Cons.prems(1) ok obtain g1 sch1 bsi1 sch2 btc1 where
      "Scheduler_swap_in sch g bsi = Inr (g1, sch1, bsi1)"
      and ap: "Scheduler_append sch1 g1 btc = Inr (sch2, btc1)"
      and rest: "swap_in_loop gs (Suc i) sch2 bsi1 btc1 = Inr (sch', bsi', btc')"
      by (auto split: sum.splits)
    from Cons.IH[OF rest Scheduler_append_keys[OF ap Cons.prems(2)]] show ?thesis .
  next
    case False
    with Cons.prems ok show ?thesis by simp
  qed
qed

lemma plan_seqs_copy:
  "plan_seqs bm p qs plan = Inr plan' \<Longrightarrow> blocks_to_copy plan' = blocks_to_copy plan"
  by (induction qs arbitrary: plan) (auto simp: Let_def split: if_splits sum.splits)

lemma plan_groups_copy:
  "plan_groups sch gs plan = Inr plan' \<Longrightarrow> blocks_to_copy plan' = blocks_to_copy plan"
  by (induction gs arbitrary: plan) (auto split: option.splits sum.splits dest: plan_seqs_copy)

lemma step_copy_keys:
  assumes "step sch inputs = Inr (plan, sch')"
  shows "distinct (map fst (blocks_to_copy plan))"
proof -
  from assms obtain sch3 bsi bso btc where
    ph: "phases_1_to_3 sch inputs = Inr (sch3, bsi, bso, btc)"
    and pg: "plan_groups sch3 (running sch3)
                  \<lparr>prompt_tokens = [], generation_tokens = [], context_lens = [],
                   plan_block_tables = [], blocks_to_swap_in = bsi, blocks_to_swap_out = bso,
                   blocks_to_copy = btc\<rparr> = Inr plan"
    by (auto simp: step_def split: sum.splits if_splits)
  from ph obtain sch1 bso1 btc1 sch2 where
    p1: "phase1 sch = Inr (sch1, bso1, btc1)" and p2: "phase2 sch1 btc1 = Inr (sch2, bsi, btc)"
    by (auto simp: phases_1_to_3_def split: sum.splits)
  from p1 obtain v schr where
    "reserve_loop (running sch) 0 (int (length (running sch)) - 1) sch [] [] = Inr (v, schr, bso1, btc1)"
    by (auto simp: phase1_def split: sum.splits)
  from reserve_loop_keys[OF this] have "distinct (map fst btc1)" by simp
  with p2 have "distinct (map fst btc)"
    by (auto simp: phase2_def dest: swap_in_loop_keys)
  with plan_groups_copy[OF pg] show ?thesis by simp
qed

lemma append_slot_Some:
  assumes "append_slot s q = Inr (Some (a, b), s')"
  obtains t nb s1 where "map_of (block_tables s) (seq_id q) = Some t" "t \<noteq> []"
    "allocate_on GPU s = Inr (nb, s1)" "a = block_number (last t)" "b = block_number nb"
    "block_tables s' = AList.update (seq_id q) (butlast t @ [nb]) (block_tables s)"
proof -
  from assms obtain t where t: "map_of (block_tables s) (seq_id q) = Some t"
    by (auto simp: append_slot_def split: option.splits)
  from assms t have ne: "t \<noteq> []"
    by (auto simp: append_slot_def Let_def split: if_splits sum.splits)
  from assms t ne obtain nb s1 where al: "allocate_on GPU s = Inr (nb, s1)"
    by (auto simp: append_slot_def Let_def split: if_splits sum.splits)
  from assms t ne al obtain s2 where
    fr: "free_on GPU (s1\<lparr>block_tables :=
            AList.update (seq_id q) (butlast t @ [nb]) (block_tables s1)\<rparr>) (last t) = Inr s2"
    and res: "a = block_number (last t)" "b = block_number nb" "s' = s2"
    by (auto simp: append_slot_def Let_def split: if_splits sum.splits)
  from free_on_Inr(3)[OF fr] allocate_on_Inr(3)[OF al] res
  have "block_tables s' = AList.update (seq_id q) (butlast t @ [nb]) (block_tables s)"
    by simp
  with t ne al res that show thesis by blast
qed

lemma cow_destinations_differ:
  assumes inv: "manager_invariant bm"
    and a1: "append_slot bm q1 = Inr (Some (src, d1), bm1)"
    and a2: "append_slot bm1 q2 = Inr (Some (src', d2), bm2)"
  shows "d1 \<noteq> d2"
proof -
  have inv1: "manager_invariant bm1" by (rule append_slot_invariant[OF inv a1])
  from a1 obtain t nb s1 where t: "map_of (block_tables bm) (seq_id q1) = Some t"
    and al: "allocate_on GPU bm = Inr (nb, s1)" and d1: "d1 = block_number nb"
    and bt1: "block_tables bm1 = AList.update (seq_id q1) (butlast t @ [nb]) (block_tables bm)"
    by (rule append_slot_Some)
  from a2 obtain t' nb' s1' where al': "allocate_on GPU bm1 = Inr (nb', s1')"
    and d2: "d2 = block_number nb'"
    by (rule append_slot_Some)
  from invariant_balanced inv have "balanced bm (\<lambda>_. 0)" by simp
  from balanced_allocate(3)[OF this al] have g1: "device nb = GPU" .
  from invariant_balanced inv1 have "balanced bm1 (\<lambda>_. 0)" by simp
  from balanced_allocate(3)[OF this al'] have g2: "device nb' = GPU" .
  have "map_of (block_tables bm1) (seq_id q1) = Some (butlast t @ [nb])"
    by (simp add: bt1 update_conv')
  from invariant_referenced(2)[OF inv1 this, of nb] g1
  have "nb \<notin> set (free_list GPU bm1)" by simp
  moreover have "nb' \<in> set (free_list GPU bm1)" by (simp add: allocate_on_Inr(1)[OF al'])
  ultimately have "nb \<noteq> nb'" by auto
  with g1 g2 d1 d2 show ?thesis by (auto simp: PhysicalTokenBlock.expand)
qed


text \<open>
  Phase 4 leaves the three maps alone, so a plan that \<open>step\<close> returns has passed the
  assertion after phase 3.
\<close>

lemma plan_seqs_swaps:
  "plan_seqs bm p qs plan = Inr plan' \<Longrightarrow>
   blocks_to_swap_in plan' = blocks_to_swap_in plan
   \<and> blocks_to_swap_out plan' = blocks_to_swap_out plan"
  by (induction qs arbitrary: plan) (auto simp: Let_def split: if_splits sum.splits)

lemma plan_groups_swaps:
  "plan_groups sch gs plan = Inr plan' \<Longrightarrow>
   blocks_to_swap_in plan' = blocks_to_swap_in plan
   \<and> blocks_to_swap_out plan' = blocks_to_swap_out plan"
  by (induction gs arbitrary: plan) (auto split: option.splits sum.splits dest: plan_seqs_swaps)

lemma step_plan_exclusive:
  assumes "step sch inputs = Inr (plan, sch')"
  shows "\<not> (blocks_to_swap_in plan \<noteq> [] \<and> blocks_to_swap_out plan \<noteq> [])"
  using assms
  by (auto simp: step_def split: sum.splits if_splits dest!: plan_groups_swaps)

text \<open>Phase 3: the loop over the pending queue admits a prefix of it.\<close>

lemma fetch_inputs_fields:
  "pending (fetch_inputs sch inputs) = pending sch @ map fst inputs"
  "block_manager (fetch_inputs sch inputs) = block_manager sch"
  "running (fetch_inputs sch inputs) = running sch"
  "num_steps (fetch_inputs sch inputs) = num_steps sch"
  "swapped (fetch_inputs sch inputs) = swapped sch"
  by (induction sch inputs rule: fetch_inputs.induct) simp_all

lemma can_allocate_allocate:
  assumes "can_allocate bm g = Inr True"
  shows "\<exists>bm1. allocate bm g = Inr bm1"
proof -
  from assms obtain q qs where q: "seqs g = q # qs"
    and le: "length (logical_token_blocks q) \<le> length (free_blocks (gpu_allocator bm))"
    by (auto simp: can_allocate_def get_num_free_blocks_def split: list.splits)
  from allocate_blocks_closed[OF le, of "num_seqs g None" "[]"] q show ?thesis
    by (auto simp: allocate_def)
qed

lemma join_loop_char:
  assumes "\<forall>g\<in>set P. seqs g \<noteq> []"
  shows "\<exists>adm rest bm' n'. P = adm @ rest
     \<and> admit_all (block_manager sch) n adm = Some (bm', n')
     \<and> n' = n + sum_list (map prompt_len adm)
     \<and> (adm \<noteq> [] \<longrightarrow> n' \<le> MAX_NUM_BATCHED_TOKENS)
     \<and> (rest \<noteq> [] \<longrightarrow> \<not> fits bm' n' (hd rest))
     \<and> join_loop P i n sch =
         Inr (sch\<lparr>block_manager := bm',
                  running := running sch @ map (set_all_status RUNNING) adm,
                  num_steps := fold (\<lambda>g. AList.update (group_id g) 0) adm (num_steps sch),
                  pending := (if rest = [] then [] else drop (i + length adm) (pending sch))\<rparr>)"
  using assms
proof (induction P arbitrary: i n sch)
  case Nil
  show ?case
    by (rule exI[of _ "[]"], rule exI[of _ "[]"], rule exI[of _ "block_manager sch"],
        rule exI[of _ n]) simp
next
  case (Cons g P)
  from Cons.prems obtain q qs where q: "seqs g = q # qs" by (cases "seqs g") auto
  then have pl: "prompt_len g = get_len q" by (simp add: prompt_len_def)
  from q obtain ok where ok: "can_allocate (block_manager sch) g = Inr ok"
    by (simp add: can_allocate_def)
  show ?case
  proof (cases "fits (block_manager sch) n g")
    case False
    then have "join_loop (g # P) i n sch = Inr (sch\<lparr>pending := drop i (pending sch)\<rparr>)"
      using q ok pl by (auto simp: fits_def)
    with False show ?thesis
      by (intro exI[of _ "[]"] exI[of _ "g # P"] exI[of _ "block_manager sch"] exI[of _ n])
         simp
  next
    case True
    then have okT: "ok" and le: "n + get_len q \<le> MAX_NUM_BATCHED_TOKENS"
      using ok pl by (simp_all add: fits_def)
    from True obtain bm1 where al: "allocate (block_manager sch) g = Inr bm1"
      using can_allocate_allocate by (auto simp: fits_def)
    define sch1 where "sch1 = sch\<lparr>block_manager := bm1,
                   running := running sch @ [set_all_status RUNNING g],
                   num_steps := AList.update (group_id g) 0 (num_steps sch)\<rparr>"
    have sa: "Scheduler_allocate sch g = Inr sch1"
      by (simp add: Scheduler_allocate_def al sch1_def)
    have jl: "join_loop (g # P) i n sch = join_loop P (Suc i) (n + get_len q) sch1"
      using q ok okT le sa by simp
    from Cons.prems have "\<forall>g\<in>set P. seqs g \<noteq> []" by simp
    from Cons.IH[OF this, of sch1 "n + get_len q" "Suc i"]
    obtain adm rest bm' n' where P: "P = adm @ rest"
      and ad: "admit_all (block_manager sch1) (n + get_len q) adm = Some (bm', n')"
      and n': "n' = n + get_len q + sum_list (map prompt_len adm)"
      and mx: "adm \<noteq> [] \<longrightarrow> n' \<le> MAX_NUM_BATCHED_TOKENS"
      and rs: "rest \<noteq> [] \<longrightarrow> \<not> fits bm' n' (hd rest)"
      and res: "join_loop P (Suc i) (n + get_len q) sch1 =
         Inr (sch1\<lparr>block_manager := bm',
                  running := running sch1 @ map (set_all_status RUNNING) adm,
                  num_steps := fold (\<lambda>g. AList.update (group_id g) 0) adm (num_steps sch1),
                  pending := (if rest = [] then [] else drop (Suc i + length adm) (pending sch1))\<rparr>)"
      by blast
    have a1: "g # P = (g # adm) @ rest" using P by simp
    have a2: "admit_all (block_manager sch) n (g # adm) = Some (bm', n')"
      using True al ad pl by (simp add: sch1_def)
    have a3: "n' = n + sum_list (map prompt_len (g # adm))" using n' pl by simp
    have a4: "g # adm \<noteq> [] \<longrightarrow> n' \<le> MAX_NUM_BATCHED_TOKENS"
      using mx le n' by (cases adm) auto
    have a5: "join_loop (g # P) i n sch =
         Inr (sch\<lparr>block_manager := bm',
                  running := running sch @ map (set_all_status RUNNING) (g # adm),
                  num_steps := fold (\<lambda>g. AList.update (group_id g) 0) (g # adm) (num_steps sch),
                  pending := (if rest = [] then [] else drop (i + length (g # adm)) (pending sch))\<rparr>)"
      unfolding jl res by (simp add: sch1_def)
    from a1 a2 a3 a4 rs a5 show ?thesis by blast
  qed
qed






















section \<open>The tier allocator\<close>

text \<open>
  C7.  \<^verbatim>\<open>allocate()\<close> raises OutOfMemory exactly when the free list is empty; otherwise it
  takes one block off the free list (the last one), sets that block's count to 1 and
  returns it, touching no other count.  \<^verbatim>\<open>free(block)\<close> raises DoubleFree exactly when the
  block's count is 0, and then allocator and counts are as before; otherwise the count
  goes down by one, no other count changes, and the block is pushed onto the free list
  exactly when the new count is 0.
\<close>

theorem tier_allocator_contract:
  "(fst (BlockManager_allocate bm rc) = Inl OutOfMemory) = (free_blocks bm = [])
   \<and> (\<forall>e. fst (BlockManager_allocate bm rc) = Inl e \<longrightarrow>
          e = OutOfMemory \<and> snd (BlockManager_allocate bm rc) = (bm, rc))
   \<and> (\<forall>b bm' rc'. BlockManager_allocate bm rc = (Inr b, bm', rc') \<longrightarrow>
          free_blocks bm = free_blocks bm' @ [b] \<and> rc' b = 1
          \<and> (\<forall>x. x \<noteq> b \<longrightarrow> rc' x = rc x)
          \<and> bm' = bm\<lparr>free_blocks := free_blocks bm'\<rparr>)
   \<and> (fst (BlockManager_free bm block rc) = Inl DoubleFree) = (rc block = 0)
   \<and> (\<forall>e. fst (BlockManager_free bm block rc) = Inl e \<longrightarrow>
          e = DoubleFree \<and> snd (BlockManager_free bm block rc) = (bm, rc))
   \<and> (\<forall>bm' rc'. BlockManager_free bm block rc = (Inr (), bm', rc') \<longrightarrow>
          rc' block = rc block - 1
          \<and> (\<forall>x. x \<noteq> block \<longrightarrow> rc' x = rc x)
          \<and> free_blocks bm' = (if rc' block = 0 then free_blocks bm @ [block] else free_blocks bm)
          \<and> bm' = bm\<lparr>free_blocks := free_blocks bm'\<rparr>)"
  by (auto simp: BlockManager_allocate_def BlockManager_free_def Let_def)

theorem tier_allocator_contract_witness:
  "BlockManager_allocate
      \<lparr>bm_device = GPU, bm_block_size = 8, num_blocks = 2,
       free_blocks = [PhysicalTokenBlock GPU 0, PhysicalTokenBlock GPU 1]\<rparr> (\<lambda>_. 0)
    = (Inr (PhysicalTokenBlock GPU 1),
       \<lparr>bm_device = GPU, bm_block_size = 8, num_blocks = 2,
        free_blocks = [PhysicalTokenBlock GPU 0]\<rparr>,
       (\<lambda>_. 0)(PhysicalTokenBlock GPU 1 := 1))
   \<and> fst (BlockManager_allocate
      \<lparr>bm_device = GPU, bm_block_size = 8, num_blocks = 2, free_blocks = []\<rparr> (\<lambda>_. 0))
    = Inl OutOfMemory
   \<and> fst (BlockManager_free
      \<lparr>bm_device = GPU, bm_block_size = 8, num_blocks = 2, free_blocks = []\<rparr>
      (PhysicalTokenBlock GPU 1) (\<lambda>_. 0)) = Inl DoubleFree
   \<and> free_blocks (fst (snd (BlockManager_free
      \<lparr>bm_device = GPU, bm_block_size = 8, num_blocks = 2, free_blocks = []\<rparr>
      (PhysicalTokenBlock GPU 1) ((\<lambda>_. 0)(PhysicalTokenBlock GPU 1 := 1)))))
    = [PhysicalTokenBlock GPU 1]"
  using tier_allocator_contract
    [of "\<lparr>bm_device = GPU, bm_block_size = 8, num_blocks = 2, free_blocks = []\<rparr>"
        "\<lambda>_. 0" "PhysicalTokenBlock GPU 1"]
  by (simp add: BlockManager_allocate_def BlockManager_free_def Let_def)

section \<open>Reference counts and free lists\<close>

text \<open>
  C2.  The state a new manager starts in satisfies \<open>manager_invariant\<close>, and each of
  \<^verbatim>\<open>allocate\<close>, \<^verbatim>\<open>append\<close>, \<^verbatim>\<open>fork\<close>, \<^verbatim>\<open>swap_in\<close>, \<^verbatim>\<open>swap_out\<close>, \<^verbatim>\<open>free\<close> and \<^verbatim>\<open>reset\<close>, when it
  returns, leaves a state that satisfies it again.  So after every operation every
  block's \<open>ref_count\<close> is the number of block-table entries that reference it
  (\<open>ref_counts_match\<close>), and a pool block is on its tier's free list, and on no other,
  exactly when its \<open>ref_count\<close> is 0 (\<open>free_iff_unreferenced\<close>, \<open>pools_wf\<close>).  The
  operations are called as the scheduler calls them: \<^verbatim>\<open>allocate\<close> on a group whose
  sequences have distinct ids and no table yet, \<^verbatim>\<open>fork\<close> onto a child that has no table,
  \<^verbatim>\<open>swap_in\<close> on a group whose tables are on the host and \<^verbatim>\<open>swap_out\<close> on one whose tables
  are on the device.
\<close>

theorem ref_count_invariant_preserved:
  "(\<forall>bsize ng nc s0. BlockSpaceManager_init bsize ng nc = Inr s0 \<longrightarrow> manager_invariant s0)
   \<and> (manager_invariant s \<longrightarrow>
       (\<forall>g s'. allocate s g = Inr s' \<and> distinct (map seq_id (seqs g))
                \<and> (\<forall>q \<in> set (seqs g). map_of (block_tables s) (seq_id q) = None)
                \<longrightarrow> manager_invariant s')
     \<and> (\<forall>q r s'. append_slot s q = Inr (r, s') \<longrightarrow> manager_invariant s')
     \<and> (\<forall>p c s'. fork s p c = Inr s' \<and> map_of (block_tables s) (seq_id c) = None
                \<longrightarrow> manager_invariant s')
     \<and> (\<forall>g m s'. swap_in s g = Inr (m, s') \<and> resident CPU (block_tables s) (seqs g)
                \<longrightarrow> manager_invariant s')
     \<and> (\<forall>g m s'. swap_out s g = Inr (m, s') \<and> resident GPU (block_tables s) (seqs g)
                \<longrightarrow> manager_invariant s')
     \<and> (\<forall>q s'. free s q = Inr s' \<longrightarrow> manager_invariant s')
     \<and> (\<forall>s'. reset s = Inr s' \<longrightarrow> manager_invariant s'))"
proof (intro conjI allI impI)
  fix bsize ng nc s0
  assume "BlockSpaceManager_init bsize ng nc = Inr s0"
  then show "manager_invariant s0" by (rule init_invariant)
next
  fix g s'
  assume "manager_invariant s" and "allocate s g = Inr s' \<and> distinct (map seq_id (seqs g))
                \<and> (\<forall>q \<in> set (seqs g). map_of (block_tables s) (seq_id q) = None)"
  then show "manager_invariant s'" by (blast intro: allocate_invariant)
next
  fix q r s'
  assume "manager_invariant s" and "append_slot s q = Inr (r, s')"
  then show "manager_invariant s'" by (rule append_slot_invariant)
next
  fix p c s'
  assume "manager_invariant s" and "fork s p c = Inr s' \<and> map_of (block_tables s) (seq_id c) = None"
  then show "manager_invariant s'" by (blast intro: fork_invariant)
next
  fix g m s'
  assume inv: "manager_invariant s"
    and a: "swap_in s g = Inr (m, s') \<and> resident CPU (block_tables s) (seqs g)"
  then obtain m0 where "swap_seqs CPU GPU (seqs g) [] s = Inr (m0, s')"
    by (auto simp: swap_in_def split: sum.splits)
  from swap_invariant[OF inv this] a show "manager_invariant s'" by simp
next
  fix g m s'
  assume inv: "manager_invariant s"
    and a: "swap_out s g = Inr (m, s') \<and> resident GPU (block_tables s) (seqs g)"
  then obtain m0 where "swap_seqs GPU CPU (seqs g) [] s = Inr (m0, s')"
    by (auto simp: swap_out_def split: sum.splits)
  from swap_invariant[OF inv this] a show "manager_invariant s'" by simp
next
  fix q s'
  assume "manager_invariant s" and "free s q = Inr s'"
  then show "manager_invariant s'" by (rule free_invariant)
next
  fix s'
  assume "manager_invariant s" and "reset s = Inr s'"
  then show "manager_invariant s'" by (rule reset_invariant)
qed

theorem ref_count_invariant_witness:
  "manager_invariant example_initial
   \<and> (\<exists>s'. allocate example_initial \<lparr>group_id = 1, seqs = [example_seq 1 1]\<rparr> = Inr s'
           \<and> manager_invariant s')
   \<and> (\<exists>s'. append_slot example_manager (example_seq 2 1) = Inr (Some (2, 1), s')
           \<and> manager_invariant s')
   \<and> (\<exists>s'. fork example_manager (example_seq 1 1) (example_seq 4 1) = Inr s'
           \<and> manager_invariant s')
   \<and> (\<exists>m s1 m' s2. swap_out example_manager example_group = Inr (m, s1) \<and> manager_invariant s1
           \<and> swap_in s1 example_group = Inr (m', s2) \<and> manager_invariant s2)
   \<and> (\<exists>s'. free example_manager (example_seq 3 1) = Inr s' \<and> manager_invariant s')
   \<and> (\<exists>s'. reset example_manager = Inr s' \<and> manager_invariant s')"
proof -
  note P = ref_count_invariant_preserved
  note P_init = P[THEN conjunct1, rule_format]
  note P_ops = P[THEN conjunct2, THEN mp]
  note P_allocate = P_ops[THEN conjunct1, rule_format]
  note P_append = P_ops[THEN conjunct2, THEN conjunct1, rule_format]
  note P_fork = P_ops[THEN conjunct2, THEN conjunct2, THEN conjunct1, rule_format]
  note P_swap_in = P_ops[THEN conjunct2, THEN conjunct2, THEN conjunct2, THEN conjunct1, rule_format]
  note P_swap_out = P_ops[THEN conjunct2, THEN conjunct2, THEN conjunct2, THEN conjunct2,
      THEN conjunct1, rule_format]
  note P_free = P_ops[THEN conjunct2, THEN conjunct2, THEN conjunct2, THEN conjunct2,
      THEN conjunct2, THEN conjunct1, rule_format]
  note P_reset = P_ops[THEN conjunct2, THEN conjunct2, THEN conjunct2, THEN conjunct2,
      THEN conjunct2, THEN conjunct2, rule_format]
  have i0: "manager_invariant example_initial"
    by (rule P_init[OF example_initial_init])
  obtain s1 where a1: "allocate example_initial \<lparr>group_id = 1, seqs = [example_seq 1 1]\<rparr> = Inr s1"
    and a2: "allocate s1 \<lparr>group_id = 2, seqs = [example_seq 2 1, example_seq 3 1]\<rparr>
               = Inr example_manager"
    using example_manager_reached by blast
  have i1: "manager_invariant s1"
    by (rule P_allocate[OF i0]) (intro conjI, rule a1, simp_all add: example_defs)
  have bt1: "block_tables s1 = [(1, [PhysicalTokenBlock GPU 3])]"
    using a1 by (auto simp: manager_code example_defs)
  have im: "manager_invariant example_manager"
    by (rule P_allocate[OF i1]) (intro conjI, rule a2, simp_all add: example_defs bt1)
  obtain s3 where ap: "append_slot example_manager (example_seq 2 1) = Inr (Some (2, 1), s3)"
    by (simp add: manager_code example_defs)
  have i3: "manager_invariant s3" by (rule P_append[OF im ap])
  obtain s4 where fk: "fork example_manager (example_seq 1 1) (example_seq 4 1) = Inr s4"
    by (simp add: manager_code example_defs)
  have i4: "manager_invariant s4"
    by (rule P_fork[OF im]) (intro conjI, rule fk, simp add: example_defs)
  define s5 where "s5 = snd (projr (swap_out example_manager example_group))"
  define m5 where "m5 = fst (projr (swap_out example_manager example_group))"
  have so: "swap_out example_manager example_group = Inr (m5, s5)"
    by (simp add: s5_def m5_def manager_code example_defs)
  have i5: "manager_invariant s5"
    by (rule P_swap_out[OF im]) (intro conjI, rule so, simp add: resident_def example_defs)
  have bt5: "block_tables s5 = [(1, [PhysicalTokenBlock GPU 3]), (2, [PhysicalTokenBlock CPU 1]),
      (3, [PhysicalTokenBlock CPU 1])]"
    by (simp add: s5_def manager_code example_defs)
  obtain m6 s6 where si: "swap_in s5 example_group = Inr (m6, s6)"
    by (simp add: s5_def manager_code example_defs)
  have i6: "manager_invariant s6"
    by (rule P_swap_in[OF i5]) (intro conjI, rule si, simp add: resident_def bt5 example_defs)
  obtain s7 where fr: "free example_manager (example_seq 3 1) = Inr s7"
    by (simp add: manager_code example_defs)
  have i7: "manager_invariant s7" by (rule P_free[OF im fr])
  obtain s8 where rs: "reset example_manager = Inr s8"
    by (simp add: manager_code example_defs)
  have i8: "manager_invariant s8" by (rule P_reset[OF im rs])
  show ?thesis
    using i0 a1 i1 ap i3 fk i4 so i5 si i6 fr i7 rs i8 by blast
qed

section \<open>Appending a slot\<close>

text \<open>
  C3.  In a state that satisfies the manager's invariant, for a sequence with block
  table \<open>t\<close>, \<^verbatim>\<open>append\<close> does one of three things.  If the sequence has more logical blocks
  than \<open>t\<close> has entries, it takes the last block off the device free list, sets its count
  to 1, appends it to the table and returns None.  Otherwise, when the last block of \<open>t\<close>
  is on the device: if its count is 1, nothing changes and None is returned; else the last
  block off the device free list (a different block) gets count 1 and replaces the tail
  of the table, the old tail's count goes down by one, and the pair of the old and the new
  block number is returned.  The first and the third case are stated for a device free
  list that is not empty (otherwise the allocator raises OutOfMemory).  The state returned
  is given in full, so nothing else changes.
\<close>

theorem append_three_ways:
  assumes inv: "manager_invariant s"
    and look: "map_of (block_tables s) (seq_id seq) = Some t"
  shows
   "(length t < length (logical_token_blocks seq) \<and> free_blocks (gpu_allocator s) \<noteq> [] \<longrightarrow>
       device (last (free_blocks (gpu_allocator s))) = GPU
     \<and> append_slot s seq =
         Inr (None,
              s\<lparr>gpu_allocator := (gpu_allocator s)\<lparr>free_blocks := butlast (free_blocks (gpu_allocator s))\<rparr>,
                ref_count := (ref_count s)(last (free_blocks (gpu_allocator s)) := 1),
                block_tables := AList.update (seq_id seq)
                                  (t @ [last (free_blocks (gpu_allocator s))]) (block_tables s)\<rparr>))
  \<and> (\<not> length t < length (logical_token_blocks seq) \<and> t \<noteq> [] \<and> device (last t) = GPU
       \<and> ref_count s (last t) = 1 \<longrightarrow>
       append_slot s seq = Inr (None, s))
  \<and> (\<not> length t < length (logical_token_blocks seq) \<and> t \<noteq> [] \<and> device (last t) = GPU
       \<and> ref_count s (last t) \<noteq> 1 \<and> free_blocks (gpu_allocator s) \<noteq> [] \<longrightarrow>
       device (last (free_blocks (gpu_allocator s))) = GPU
     \<and> last (free_blocks (gpu_allocator s)) \<noteq> last t
     \<and> append_slot s seq =
         Inr (Some (block_number (last t), block_number (last (free_blocks (gpu_allocator s)))),
              s\<lparr>gpu_allocator := (gpu_allocator s)\<lparr>free_blocks := butlast (free_blocks (gpu_allocator s))\<rparr>,
                ref_count := ((ref_count s)(last (free_blocks (gpu_allocator s)) := 1))
                                (last t := ref_count s (last t) - 1),
                block_tables := AList.update (seq_id seq)
                                  (butlast t @ [last (free_blocks (gpu_allocator s))])
                                  (block_tables s)\<rparr>))"
proof (intro conjI impI)
  let ?F = "free_blocks (gpu_allocator s)"
  {
    assume "length t < length (logical_token_blocks seq) \<and> ?F \<noteq> []"
    then have lt: "length t < length (logical_token_blocks seq)" and ne: "?F \<noteq> []" by simp_all
    from ne have "last ?F \<in> set (free_list GPU s)" by (simp add: free_list_GPU)
    from invariant_free_block(1)[OF inv this] show "device (last ?F) = GPU" .
    show "append_slot s seq =
         Inr (None,
              s\<lparr>gpu_allocator := (gpu_allocator s)\<lparr>free_blocks := butlast ?F\<rparr>,
                ref_count := (ref_count s)(last ?F := 1),
                block_tables := AList.update (seq_id seq) (t @ [last ?F]) (block_tables s)\<rparr>)"
      using lt ne look
      by (simp add: append_slot_def allocate_on_def BlockManager_allocate_def Let_def
          allocator_def set_allocator_def)
  }
  {
    assume "\<not> length t < length (logical_token_blocks seq) \<and> t \<noteq> [] \<and> device (last t) = GPU
       \<and> ref_count s (last t) = 1"
    then show "append_slot s seq = Inr (None, s)"
      using look by (simp add: append_slot_def Let_def)
  }
  {
    assume a: "\<not> length t < length (logical_token_blocks seq) \<and> t \<noteq> [] \<and> device (last t) = GPU
       \<and> ref_count s (last t) \<noteq> 1 \<and> ?F \<noteq> []"
    then have ne: "?F \<noteq> []" and tne: "t \<noteq> []" by simp_all
    from ne have fin: "last ?F \<in> set (free_list GPU s)" by (simp add: free_list_GPU)
    from invariant_free_block(1)[OF inv fin] show "device (last ?F) = GPU" .
    have lin: "last t \<in> set t" using tne by simp
    note R = invariant_referenced[OF inv look lin]
    show neq: "last ?F \<noteq> last t"
    proof
      assume "last ?F = last t"
      with last_in_set[OF ne] have "last t \<in> set ?F" by metis
      with R(2) a show False by (simp add: free_list_GPU)
    qed
    have rc: "ref_count s (last t) \<noteq> 0" "ref_count s (last t) - 1 \<noteq> 0"
      using R(1) a by auto
    show "append_slot s seq =
         Inr (Some (block_number (last t), block_number (last ?F)),
              s\<lparr>gpu_allocator := (gpu_allocator s)\<lparr>free_blocks := butlast ?F\<rparr>,
                ref_count := ((ref_count s)(last ?F := 1))(last t := ref_count s (last t) - 1),
                block_tables := AList.update (seq_id seq) (butlast t @ [last ?F]) (block_tables s)\<rparr>)"
      using a look neq rc
      by (simp add: append_slot_def allocate_on_def BlockManager_allocate_def Let_def
          allocator_def set_allocator_def free_on_def BlockManager_free_def)
  }
qed

theorem append_three_ways_witness:
  "(\<exists>s'. append_slot example_manager (example_seq 1 2) = Inr (None, s')
         \<and> map_of (block_tables s') 1 = Some [PhysicalTokenBlock GPU 3, PhysicalTokenBlock GPU 1]
         \<and> ref_count s' (PhysicalTokenBlock GPU 1) = 1)
   \<and> append_slot example_manager (example_seq 1 1) = Inr (None, example_manager)
   \<and> (\<exists>s'. append_slot example_manager (example_seq 2 1) = Inr (Some (2, 1), s')
         \<and> map_of (block_tables s') 2 = Some [PhysicalTokenBlock GPU 1]
         \<and> map_of (block_tables s') 3 = Some [PhysicalTokenBlock GPU 2]
         \<and> ref_count s' (PhysicalTokenBlock GPU 2) = 1
         \<and> ref_count s' (PhysicalTokenBlock GPU 1) = 1)"
proof -
  note T = append_three_ways[OF example_manager_invariant]
  have l1: "map_of (block_tables example_manager) (seq_id (example_seq 1 n))
      = Some [PhysicalTokenBlock GPU 3]" for n
    by (simp add: example_defs)
  have l2: "map_of (block_tables example_manager) (seq_id (example_seq 2 1))
      = Some [PhysicalTokenBlock GPU 2]"
    by (simp add: example_defs)
  have c1: "length [PhysicalTokenBlock GPU 3] < length (logical_token_blocks (example_seq 1 2))
      \<and> free_blocks (gpu_allocator example_manager) \<noteq> []"
    by (simp add: example_defs)
  have c2: "\<not> length [PhysicalTokenBlock GPU 3] < length (logical_token_blocks (example_seq 1 1))
      \<and> [PhysicalTokenBlock GPU 3] \<noteq> [] \<and> device (last [PhysicalTokenBlock GPU 3]) = GPU
      \<and> ref_count example_manager (last [PhysicalTokenBlock GPU 3]) = 1"
    by (simp add: example_defs)
  have c3: "\<not> length [PhysicalTokenBlock GPU 2] < length (logical_token_blocks (example_seq 2 1))
      \<and> [PhysicalTokenBlock GPU 2] \<noteq> [] \<and> device (last [PhysicalTokenBlock GPU 2]) = GPU
      \<and> ref_count example_manager (last [PhysicalTokenBlock GPU 2]) \<noteq> 1
      \<and> free_blocks (gpu_allocator example_manager) \<noteq> []"
    by (simp add: example_defs)
  note r1 = T[OF l1, THEN conjunct1, THEN mp, OF c1, THEN conjunct2]
  note r2 = T[OF l1, THEN conjunct2, THEN conjunct1, THEN mp, OF c2]
  note r3 = T[OF l2, THEN conjunct2, THEN conjunct2, THEN mp, OF c3, THEN conjunct2, THEN conjunct2]
  show ?thesis
    apply (intro conjI)
      apply (subst r1)
      apply (simp add: example_defs)
     apply (rule r2)
    apply (subst r3)
    apply (simp add: example_defs)
    done
qed

section \<open>Allocating a group\<close>

text \<open>
  C4.  For a group whose sequences have the same number of logical blocks and that passes
  \<^verbatim>\<open>can_allocate\<close>, \<^verbatim>\<open>allocate\<close> returns a state with one table \<open>tbl\<close> installed for every
  sequence of the group.  The table has one block per logical block of the prompt, names
  no block twice, and its blocks are device blocks that were free (count 0) and are the
  ones taken off the end of the device free list; each now has count \<open>len(seqs)\<close>.
  Nothing else changes: the host allocator, the other counts and the other tables are as
  before.
\<close>

theorem allocate_shares_prompt:
  assumes inv: "manager_invariant s"
    and gate: "can_allocate s g = Inr True"
    and same: "\<forall>q \<in> set (seqs g). length (logical_token_blocks q)
                  = length (logical_token_blocks (hd (seqs g)))"
  shows "\<exists>s' tbl. allocate s g = Inr s'
     \<and> (\<forall>q \<in> set (seqs g). length tbl = length (logical_token_blocks q)
           \<and> map_of (block_tables s') (seq_id q) = Some tbl)
     \<and> distinct tbl
     \<and> (\<forall>b \<in> set tbl. device b = GPU \<and> ref_count s b = 0
           \<and> ref_count s' b = int (length (seqs g)))
     \<and> free_blocks (gpu_allocator s) = free_blocks (gpu_allocator s') @ rev tbl
     \<and> cpu_allocator s' = cpu_allocator s
     \<and> (\<forall>b. b \<notin> set tbl \<longrightarrow> ref_count s' b = ref_count s b)
     \<and> (\<forall>k. k \<notin> seq_id ` set (seqs g) \<longrightarrow> map_of (block_tables s') k = map_of (block_tables s) k)"
proof -
  from gate obtain q0 qs where g: "seqs g = q0 # qs"
    and cap: "length (logical_token_blocks q0) \<le> length (free_blocks (gpu_allocator s))"
    by (auto simp: can_allocate_def get_num_free_blocks_def split: list.splits)
  from allocate_blocks_closed[OF cap, where k = "length (seqs g)" and tbl = "[]"] obtain tbl s1 where
    ab: "allocate_blocks (length (logical_token_blocks q0)) (length (seqs g)) [] s = Inr (tbl, s1)"
    and l: "length tbl = length (logical_token_blocks q0)"
    and f: "free_blocks (gpu_allocator s) = free_blocks (gpu_allocator s1) @ rev tbl"
    and c: "cpu_allocator s1 = cpu_allocator s" and bt: "block_tables s1 = block_tables s"
    and rc: "\<forall>b. ref_count s1 b = (if b \<in> set tbl then int (length (seqs g)) else ref_count s b)"
    by auto
  let ?s' = "s1\<lparr>block_tables := assign_tables (seqs g) tbl (block_tables s1)\<rparr>"
  have al: "allocate s g = Inr ?s'"
    using ab g by (simp add: allocate_def num_seqs_def)
  have dist: "distinct (free_blocks (gpu_allocator s))"
    using inv by (auto simp: manager_invariant_def pools_wf_def free_list_GPU[symmetric])
  with f have dt: "distinct tbl" by (metis distinct_append distinct_rev)
  have infree: "b \<in> set (free_list GPU s)" if "b \<in> set tbl" for b
    using that f by (metis Un_iff free_list_GPU set_append set_rev)
  show ?thesis
  proof (intro exI[of _ ?s'] exI[of _ tbl] conjI ballI allI impI)
    show "allocate s g = Inr ?s'" by (rule al)
    show "length tbl = length (logical_token_blocks q)" if "q \<in> set (seqs g)" for q
      using same that l g by auto
    show "map_of (block_tables ?s') (seq_id q) = Some tbl" if "q \<in> set (seqs g)" for q
      using that by (simp add: map_of_assign_tables)
    show "distinct tbl" by (rule dt)
    show "device b = GPU" if "b \<in> set tbl" for b
      by (rule invariant_free_block(1)[OF inv infree[OF that]])
    show "ref_count s b = 0" if "b \<in> set tbl" for b
      by (rule invariant_free_block(2)[OF inv infree[OF that]])
    show "ref_count ?s' b = int (length (seqs g))" if "b \<in> set tbl" for b
      using that rc by simp
    show "free_blocks (gpu_allocator s) = free_blocks (gpu_allocator ?s') @ rev tbl"
      using f by simp
    show "cpu_allocator ?s' = cpu_allocator s" using c by simp
    show "ref_count ?s' b = ref_count s b" if "b \<notin> set tbl" for b
      using that rc by simp
    show "map_of (block_tables ?s') k = map_of (block_tables s) k"
      if "k \<notin> seq_id ` set (seqs g)" for k
      using that by (simp add: map_of_assign_tables bt)
  qed
qed

theorem allocate_shares_prompt_witness:
  "can_allocate example_initial example_group = Inr True
   \<and> (\<exists>s'. allocate example_initial example_group = Inr s'
         \<and> map_of (block_tables s') 2 = Some [PhysicalTokenBlock GPU 3]
         \<and> map_of (block_tables s') 3 = Some [PhysicalTokenBlock GPU 3]
         \<and> ref_count s' (PhysicalTokenBlock GPU 3) = 2
         \<and> free_blocks (gpu_allocator s')
             = [PhysicalTokenBlock GPU 0, PhysicalTokenBlock GPU 1, PhysicalTokenBlock GPU 2])"
proof -
  have i0: "manager_invariant example_initial"
    by (rule init_invariant[OF example_initial_init])
  have gate: "can_allocate example_initial example_group = Inr True"
    by (simp add: can_allocate_def get_num_free_blocks_def example_defs)
  have same: "\<forall>q \<in> set (seqs example_group). length (logical_token_blocks q)
                  = length (logical_token_blocks (hd (seqs example_group)))"
    by (simp add: example_defs)
  from allocate_shares_prompt[OF i0 gate same] obtain s' tbl where
    al: "allocate example_initial example_group = Inr s'"
    and each: "\<forall>q \<in> set (seqs example_group). length tbl = length (logical_token_blocks q)
           \<and> map_of (block_tables s') (seq_id q) = Some tbl"
    and rc: "\<forall>b \<in> set tbl. device b = GPU \<and> ref_count example_initial b = 0
           \<and> ref_count s' b = int (length (seqs example_group))"
    and fl: "free_blocks (gpu_allocator example_initial) = free_blocks (gpu_allocator s') @ rev tbl"
    by blast
  from each have len: "length tbl = 1"
    and t2: "map_of (block_tables s') 2 = Some tbl" and t3: "map_of (block_tables s') 3 = Some tbl"
    by (simp_all add: example_defs)
  from len obtain x where x: "tbl = [x]" by (cases tbl) auto
  from fl x have "x = PhysicalTokenBlock GPU 3"
    and "free_blocks (gpu_allocator s')
             = [PhysicalTokenBlock GPU 0, PhysicalTokenBlock GPU 1, PhysicalTokenBlock GPU 2]"
    by (simp_all add: example_defs snoc_eq_iff_butlast)
  with gate al t2 t3 rc x show ?thesis by (auto simp: example_defs)
qed

section \<open>Forking a sequence\<close>

text \<open>
  C6.  \<^verbatim>\<open>fork\<close> never raises OutOfMemory, in any state and for any two sequences.  In a
  state that satisfies the manager's invariant, for a parent with block table \<open>t\<close>,
  \<^verbatim>\<open>fork(parent, child)\<close> returns: the two allocators (so their free lists) are untouched,
  the child's table is \<open>t\<close>, and the count of every block of \<open>t\<close> is one higher while the
  other counts are as before.  \<^verbatim>\<open>free(child)\<close> right after it returns too, and then all
  counts and both allocators are what they were before the fork.
\<close>

theorem fork_then_free:
  assumes inv: "manager_invariant s"
    and look: "map_of (block_tables s) (seq_id parent_seq) = Some t"
  shows "(\<exists>s1 s2. fork s parent_seq child_seq = Inr s1
     \<and> gpu_allocator s1 = gpu_allocator s \<and> cpu_allocator s1 = cpu_allocator s
     \<and> map_of (block_tables s1) (seq_id child_seq) = Some t
     \<and> (\<forall>b. ref_count s1 b = (if b \<in> set t then ref_count s b + 1 else ref_count s b))
     \<and> free s1 child_seq = Inr s2
     \<and> ref_count s2 = ref_count s
     \<and> gpu_allocator s2 = gpu_allocator s \<and> cpu_allocator s2 = cpu_allocator s)
   \<and> fork any_state any_parent any_child \<noteq> Inl OutOfMemory"
proof
  let ?rc1 = "\<lambda>b. ref_count s b + int (count_list t b)"
  let ?s1 = "s\<lparr>block_tables := AList.update (seq_id child_seq) t (block_tables s),
               ref_count := ?rc1\<rparr>"
  have fk: "fork s parent_seq child_seq = Inr ?s1"
    using look by (simp add: fork_def fold_incr)
  from inv have tw: "tables_wf (block_tables s)" by (simp add: manager_invariant_def)
  note dt = table_distinct[OF tw look]
  have cnt: "count_list t b = (if b \<in> set t then 1 else 0)" for b
    using dt by (rule distinct_count_list)
  have l1: "map_of (block_tables ?s1) (seq_id child_seq) = Some t" by (simp add: update_conv')
  have "\<forall>b \<in> set t. int (count_list t b) < ref_count ?s1 b"
    using invariant_referenced(1)[OF inv look] by auto
  from free_block_table_shared[OF this]
  have ft: "free_block_table ?s1 t
      = Inr (?s1\<lparr>ref_count := (\<lambda>b. ref_count ?s1 b - int (count_list t b))\<rparr>)" .
  let ?s2 = "?s1\<lparr>ref_count := (\<lambda>b. ref_count ?s1 b - int (count_list t b)),
                block_tables := AList.delete (seq_id child_seq) (block_tables ?s1)\<rparr>"
  have fr: "free ?s1 child_seq = Inr ?s2"
    using l1 ft by (simp add: free_def)
  show "\<exists>s1 s2. fork s parent_seq child_seq = Inr s1
     \<and> gpu_allocator s1 = gpu_allocator s \<and> cpu_allocator s1 = cpu_allocator s
     \<and> map_of (block_tables s1) (seq_id child_seq) = Some t
     \<and> (\<forall>b. ref_count s1 b = (if b \<in> set t then ref_count s b + 1 else ref_count s b))
     \<and> free s1 child_seq = Inr s2
     \<and> ref_count s2 = ref_count s
     \<and> gpu_allocator s2 = gpu_allocator s \<and> cpu_allocator s2 = cpu_allocator s"
    by (intro exI[of _ ?s1] exI[of _ ?s2]) (use fk l1 fr cnt in \<open>simp add: fun_eq_iff\<close>)
  show "fork any_state any_parent any_child \<noteq> Inl OutOfMemory"
    by (simp add: fork_def split: option.splits)
qed

theorem fork_then_free_witness:
  "\<exists>s1 s2. fork example_manager (example_seq 2 1) (example_seq 4 1) = Inr s1
     \<and> map_of (block_tables s1) 4 = Some [PhysicalTokenBlock GPU 2]
     \<and> ref_count s1 (PhysicalTokenBlock GPU 2) = 3
     \<and> ref_count s1 (PhysicalTokenBlock GPU 3) = 1
     \<and> free_blocks (gpu_allocator s1) = [PhysicalTokenBlock GPU 0, PhysicalTokenBlock GPU 1]
     \<and> free s1 (example_seq 4 1) = Inr s2
     \<and> ref_count s2 (PhysicalTokenBlock GPU 2) = 2
     \<and> free_blocks (gpu_allocator s2) = [PhysicalTokenBlock GPU 0, PhysicalTokenBlock GPU 1]"
proof -
  have l: "map_of (block_tables example_manager) (seq_id (example_seq 2 1))
      = Some [PhysicalTokenBlock GPU 2]"
    by (simp add: example_defs)
  from fork_then_free[OF example_manager_invariant l, of "example_seq 4 1", THEN conjunct1]
  obtain s1 s2 where "fork example_manager (example_seq 2 1) (example_seq 4 1) = Inr s1"
    "gpu_allocator s1 = gpu_allocator example_manager"
    "map_of (block_tables s1) (seq_id (example_seq 4 1)) = Some [PhysicalTokenBlock GPU 2]"
    "\<forall>b. ref_count s1 b = (if b \<in> set [PhysicalTokenBlock GPU 2]
        then ref_count example_manager b + 1 else ref_count example_manager b)"
    "free s1 (example_seq 4 1) = Inr s2"
    "ref_count s2 = ref_count example_manager"
    "gpu_allocator s2 = gpu_allocator example_manager"
    by blast
  then show ?thesis
    by (intro exI[of _ s1] exI[of _ s2]) (simp add: example_defs)
qed

section \<open>Swapping a group out and back in\<close>

text \<open>
  C5, as amended.  Let the manager's invariant hold, let the live sequences of the group
  have distinct ids and tables on the device, let the blocks of those tables be
  referenced by the group only, and let \<^verbatim>\<open>can_swap_out\<close> hold.  Then \<^verbatim>\<open>swap_out(group)\<close>
  followed by \<^verbatim>\<open>swap_in(group)\<close> returns, and there is a bijection \<open>\<pi>\<close> on blocks, the
  identity outside the group's blocks and keeping every block on its tier, such that:
  every live sequence's table is the old one mapped through \<open>\<pi>\<close> (same length, same
  order, same sharing); the tables of all other sequences are as before; the block
  \<open>\<pi> b\<close> ends with the count that \<open>b\<close> had, so counts outside the group, also those of
  all host blocks, are as before; the device free list is as before; and the invariant
  holds again.  On block numbers \<open>\<pi>\<close> is a bijection too, and \<^verbatim>\<open>get_block_table\<close> of a live
  sequence returns the old list mapped through it.
\<close>

theorem swap_round_trip:
  assumes inv: "manager_invariant s"
    and res: "resident GPU (block_tables s) (seqs g)"
    and closed: "\<forall>b \<in> set (group_blocks (block_tables s) (seqs g)).
          ref_count s b = int (count_list (group_blocks (block_tables s) (seqs g)) b)"
    and gate: "can_swap_out s g = Inr True"
  shows "\<exists>m1 s1 m2 s2 \<pi>. swap_out s g = Inr (m1, s1) \<and> swap_in s1 g = Inr (m2, s2)
     \<and> bij \<pi> \<and> (\<forall>b. device (\<pi> b) = device b)
     \<and> (\<forall>b. b \<notin> set (group_blocks (block_tables s) (seqs g)) \<longrightarrow> \<pi> b = b)
     \<and> (\<forall>q \<in> set (live_seqs (seqs g)). \<exists>t. map_of (block_tables s) (seq_id q) = Some t
           \<and> map_of (block_tables s2) (seq_id q) = Some (map \<pi> t))
     \<and> (\<forall>k. k \<notin> seq_id ` set (live_seqs (seqs g)) \<longrightarrow>
           map_of (block_tables s2) k = map_of (block_tables s) k)
     \<and> (\<forall>b. ref_count s2 (\<pi> b) = ref_count s b)
     \<and> free_blocks (gpu_allocator s2) = free_blocks (gpu_allocator s)
     \<and> manager_invariant s2
     \<and> bij (\<lambda>n. block_number (\<pi> (PhysicalTokenBlock GPU n)))
     \<and> (\<forall>q \<in> set (live_seqs (seqs g)). \<exists>ns. get_block_table s q = Inr ns
           \<and> get_block_table s2 q
               = Inr (map (\<lambda>n. block_number (\<pi> (PhysicalTokenBlock GPU n))) ns))"
proof -
  define qs where "qs = seqs g"
  define G where "G = group_blocks (block_tables s) qs"
  from gate obtain blocks where gp: "get_physical_blocks_loop (block_tables s) qs [] = Inr blocks"
    and le: "length blocks \<le> length (free_list CPU s)"
    by (auto simp: can_swap_out_def get_physical_blocks_def get_num_free_blocks_def qs_def
        free_list_CPU split: sum.splits)
  from get_physical_blocks_loop_Inr[OF gp]
  have has: "\<forall>q \<in> set (live_seqs qs). map_of (block_tables s) (seq_id q) \<noteq> None"
    and db: "distinct blocks" and sb: "set blocks = set G"
    by (simp_all add: G_def)
  have cap: "card (set G) \<le> length (free_list CPU s)"
    using le distinct_card[OF db] sb by simp
  have res': "resident GPU (block_tables s) qs" using res by (simp add: qs_def)
  have closed': "\<forall>b \<in> set G. ref_count s b = int (count_list G b)"
    using closed by (simp add: G_def qs_def)
  from swap_closed[OF inv _ res' has G_def closed' cap]
  obtain m1 s1 \<mu>1 news1 pushed1 where
    sw1: "swap_seqs GPU CPU qs [] s = Inr (m1, s1)" and inv1: "manager_invariant s1"
    and inj1: "inj_on \<mu>1 (set G)" and dev1: "\<forall>b \<in> set G. device (\<mu>1 b) = CPU"
    and fl1: "free_list CPU s = free_list CPU s1 @ rev news1" and sn1: "set news1 = \<mu>1 ` set G"
    and fp1: "free_list GPU s1 = free_list GPU s @ pushed1" and sp1: "set pushed1 = set G"
    and lp1: "length pushed1 = card (set G)"
    and T1: "\<forall>q \<in> set (live_seqs qs). \<exists>t. map_of (block_tables s) (seq_id q) = Some t
           \<and> map_of (block_tables s1) (seq_id q) = Some (map \<mu>1 t)"
    and O1: "\<forall>k. k \<notin> seq_id ` set (live_seqs qs) \<longrightarrow>
           map_of (block_tables s1) k = map_of (block_tables s) k"
    and C1: "\<forall>b \<in> set G. ref_count s1 b = 0 \<and> ref_count s1 (\<mu>1 b) = ref_count s b"
    and X1: "\<forall>x. x \<notin> set G \<longrightarrow> x \<notin> \<mu>1 ` set G \<longrightarrow> ref_count s1 x = ref_count s x"
    by auto
  define G1 where "G1 = group_blocks (block_tables s1) qs"
  have G1: "G1 = map \<mu>1 G"
    unfolding G1_def G_def by (rule group_blocks_mapped[OF T1])
  have gdev: "device b = GPU" if "b \<in> set G" for b
    using group_blocks_device[OF res' has] that by (simp add: G_def)
  have has1: "\<forall>q \<in> set (live_seqs qs). map_of (block_tables s1) (seq_id q) \<noteq> None"
    using T1 by auto
  have res1: "resident CPU (block_tables s1) qs"
    unfolding resident_def
  proof (intro conjI ballI allI impI)
    show "distinct (map seq_id (live_seqs qs))" using res' by (simp add: resident_def)
    fix q t b assume q: "q \<in> set (live_seqs qs)"
      and t: "map_of (block_tables s1) (seq_id q) = Some t" and b: "b \<in> set t"
    from T1 q t obtain t0 where t0: "map_of (block_tables s) (seq_id q) = Some t0"
      and tt: "t = map \<mu>1 t0" by auto
    from table_in_group[OF q t0] have "set t0 \<subseteq> set G" by (simp add: G_def)
    with b tt dev1 show "device b = CPU" by auto
  qed
  have closed1: "\<forall>c \<in> set G1. ref_count s1 c = int (count_list G1 c)"
  proof
    fix c assume "c \<in> set G1"
    then obtain b where b: "b \<in> set G" and c: "c = \<mu>1 b" by (auto simp: G1)
    have "count_list (map \<mu>1 G) (\<mu>1 b) = count_list G b"
      by (rule count_list_inj_map[OF inj1 b])
    with C1 closed' b c show "ref_count s1 c = int (count_list G1 c)" by (simp add: G1)
  qed
  have cardG1: "card (set G1) = card (set G)"
    unfolding G1 using card_image[OF inj1] by simp
  have cap1: "card (set G1) \<le> length (free_list GPU s1)"
    using cardG1 lp1 by (simp add: fp1)
  from swap_closed[OF inv1 _ res1 has1 G1_def closed1 cap1]
  obtain m2 s2 \<mu>2 news2 pushed2 where
    sw2: "swap_seqs CPU GPU qs [] s1 = Inr (m2, s2)" and inv2: "manager_invariant s2"
    and inj2: "inj_on \<mu>2 (set G1)"
    and fl2: "free_list GPU s1 = free_list GPU s2 @ rev news2" and sn2: "set news2 = \<mu>2 ` set G1"
    and ln2: "length news2 = card (set G1)"
    and T2: "\<forall>q \<in> set (live_seqs qs). \<exists>t. map_of (block_tables s1) (seq_id q) = Some t
           \<and> map_of (block_tables s2) (seq_id q) = Some (map \<mu>2 t)"
    and O2: "\<forall>k. k \<notin> seq_id ` set (live_seqs qs) \<longrightarrow>
           map_of (block_tables s2) k = map_of (block_tables s1) k"
    and C2: "\<forall>b \<in> set G1. ref_count s2 b = 0 \<and> ref_count s2 (\<mu>2 b) = ref_count s1 b"
    and X2: "\<forall>x. x \<notin> set G1 \<longrightarrow> x \<notin> \<mu>2 ` set G1 \<longrightarrow> ref_count s2 x = ref_count s1 x"
    by auto
  have "free_list GPU s @ pushed1 = free_list GPU s2 @ rev news2"
    using fp1 fl2 by simp
  moreover have "length pushed1 = length (rev news2)"
    using lp1 ln2 cardG1 by simp
  ultimately have same_free: "free_list GPU s = free_list GPU s2" and pn: "pushed1 = rev news2"
    by simp_all
  have img2: "\<mu>2 ` set G1 = set G"
    using sn2 pn sp1 by (metis set_rev)
  define \<pi> where "\<pi> = (\<lambda>b. if b \<in> set G then \<mu>2 (\<mu>1 b) else b)"
  have inj12: "inj_on (\<lambda>b. \<mu>2 (\<mu>1 b)) (set G)"
    using comp_inj_on[OF inj1, of \<mu>2] inj2 by (simp add: G1 comp_def)
  have img12: "(\<lambda>b. \<mu>2 (\<mu>1 b)) ` set G = set G"
    using img2 by (simp add: G1 image_image)
  have bij: "bij \<pi>"
    unfolding \<pi>_def by (rule bij_extend[OF inj12 img12])
  have pi_in: "\<pi> b \<in> set G" if "b \<in> set G" for b
    using that img12 by (auto simp: \<pi>_def)
  have pdev: "device (\<pi> b) = device b" for b
  proof (cases "b \<in> set G")
    case True
    with gdev[OF pi_in[OF True]] gdev[OF True] show ?thesis by simp
  next
    case False
    then show ?thesis by (simp add: \<pi>_def)
  qed
  have tables: "\<exists>t. map_of (block_tables s) (seq_id q) = Some t
           \<and> map_of (block_tables s2) (seq_id q) = Some (map \<pi> t)"
    if q: "q \<in> set (live_seqs qs)" for q
  proof -
    from T1 q obtain t where t: "map_of (block_tables s) (seq_id q) = Some t"
      and t1: "map_of (block_tables s1) (seq_id q) = Some (map \<mu>1 t)" by auto
    from T2 q t1 have t2: "map_of (block_tables s2) (seq_id q) = Some (map \<mu>2 (map \<mu>1 t))"
      by auto
    from table_in_group[OF q t] have "set t \<subseteq> set G" by (simp add: G_def)
    then have "map \<mu>2 (map \<mu>1 t) = map \<pi> t" by (auto simp: \<pi>_def)
    with t t2 show ?thesis by simp
  qed
  have others: "map_of (block_tables s2) k = map_of (block_tables s) k"
    if "k \<notin> seq_id ` set (live_seqs qs)" for k
    using that O1 O2 by simp
  have counts: "ref_count s2 (\<pi> b) = ref_count s b" for b
  proof (cases "b \<in> set G")
    case True
    then have "\<mu>1 b \<in> set G1" by (simp add: G1)
    with C2 have "ref_count s2 (\<mu>2 (\<mu>1 b)) = ref_count s1 (\<mu>1 b)" by simp
    with C1 True show ?thesis by (simp add: \<pi>_def)
  next
    case False
    then have pb: "\<pi> b = b" by (simp add: \<pi>_def)
    show ?thesis
    proof (cases "b \<in> set G1")
      case True
      with C2 have z2: "ref_count s2 b = 0" by simp
      from True have "b \<in> set news1" by (simp add: sn1 G1)
      then have "b \<in> set (free_list CPU s)" by (simp add: fl1)
      from invariant_free_block(2)[OF inv this] z2 pb show ?thesis by simp
    next
      case nG1: False
      with False X2 img2 have "ref_count s2 b = ref_count s1 b" by simp
      moreover from nG1 False X1 have "ref_count s1 b = ref_count s b" by (simp add: G1)
      ultimately show ?thesis by (simp add: pb)
    qed
  qed
  have same_free': "free_blocks (gpu_allocator s2) = free_blocks (gpu_allocator s)"
    using same_free by (simp add: free_list_GPU)
  have numbers: "\<exists>ns. get_block_table s q = Inr ns
           \<and> get_block_table s2 q
               = Inr (map (\<lambda>n. block_number (\<pi> (PhysicalTokenBlock GPU n))) ns)"
    if q: "q \<in> set (live_seqs qs)" for q
  proof -
    from tables[OF q] obtain t where t: "map_of (block_tables s) (seq_id q) = Some t"
      and t2: "map_of (block_tables s2) (seq_id q) = Some (map \<pi> t)" by blast
    from table_in_group[OF q t] have sub: "set t \<subseteq> set G" by (simp add: G_def)
    have "\<pi> b = \<pi> (PhysicalTokenBlock GPU (block_number b))" if "b \<in> set t" for b
    proof -
      from that sub gdev have "device b = GPU" by auto
      then have "b = PhysicalTokenBlock GPU (block_number b)" by (cases b) simp
      then show ?thesis by simp
    qed
    then have "map block_number (map \<pi> t)
        = map (\<lambda>n. block_number (\<pi> (PhysicalTokenBlock GPU n))) (map block_number t)"
      by simp
    with t t2 show ?thesis by (simp add: get_block_table_def)
  qed
  have so: "swap_out s g = Inr (block_number_mapping m1, s1)"
    using sw1 by (simp add: swap_out_def qs_def)
  have si: "swap_in s1 g = Inr (block_number_mapping m2, s2)"
    using sw2 by (simp add: swap_in_def qs_def)
  show ?thesis
    apply (rule exI[of _ "block_number_mapping m1"], rule exI[of _ s1],
        rule exI[of _ "block_number_mapping m2"], rule exI[of _ s2], rule exI[of _ \<pi>],
        intro conjI)
               apply (rule so)
              apply (rule si)
             apply (rule bij)
            apply (use pdev in blast)
           apply (simp add: \<pi>_def G_def qs_def)
          apply (use tables in \<open>simp add: qs_def\<close>)
         apply (use others in \<open>simp add: qs_def\<close>)
        apply (use counts in blast)
       apply (rule same_free')
      apply (rule inv2)
     apply (rule bij_numbers[OF bij])
     apply (use pdev in blast)
    apply (use numbers in \<open>simp add: qs_def\<close>)
    done
qed

theorem swap_round_trip_witness:
  "\<exists>m1 s1 m2 s2 \<pi>. swap_out example_shared example_pair = Inr (m1, s1)
     \<and> swap_in s1 example_pair = Inr (m2, s2)
     \<and> bij \<pi> \<and> (\<forall>b. device (\<pi> b) = device b)
     \<and> map_of (block_tables s2) 1
         = Some (map \<pi> [PhysicalTokenBlock GPU 2, PhysicalTokenBlock GPU 1])
     \<and> map_of (block_tables s2) 2
         = Some (map \<pi> [PhysicalTokenBlock GPU 2, PhysicalTokenBlock GPU 0])
     \<and> ref_count s2 (\<pi> (PhysicalTokenBlock GPU 2)) = 2
     \<and> ref_count s2 (\<pi> (PhysicalTokenBlock GPU 1)) = 1
     \<and> ref_count s2 (\<pi> (PhysicalTokenBlock GPU 0)) = 1
     \<and> ref_count s2 (\<pi> (PhysicalTokenBlock CPU 2)) = 0
     \<and> free_blocks (gpu_allocator s2) = []"
proof -
  have res: "resident GPU (block_tables example_shared) (seqs example_pair)"
    by (simp add: resident_def example_defs)
  have gb: "group_blocks (block_tables example_shared) (seqs example_pair)
      = [PhysicalTokenBlock GPU 2, PhysicalTokenBlock GPU 1,
         PhysicalTokenBlock GPU 2, PhysicalTokenBlock GPU 0]"
    by (simp add: group_blocks_def example_defs)
  have closed: "\<forall>b \<in> set (group_blocks (block_tables example_shared) (seqs example_pair)).
      ref_count example_shared b
        = int (count_list (group_blocks (block_tables example_shared) (seqs example_pair)) b)"
    unfolding gb by (simp add: example_defs)
  have gate: "can_swap_out example_shared example_pair = Inr True"
    by (simp add: can_swap_out_def get_physical_blocks_def get_num_free_blocks_def example_defs)
  from swap_round_trip[OF example_shared_invariant res closed gate]
  obtain m1 s1 m2 s2 \<pi> where
    "swap_out example_shared example_pair = Inr (m1, s1)" "swap_in s1 example_pair = Inr (m2, s2)"
    "bij \<pi>" "\<forall>b. device (\<pi> b) = device b"
    "\<forall>q \<in> set (live_seqs (seqs example_pair)).
        \<exists>t. map_of (block_tables example_shared) (seq_id q) = Some t
           \<and> map_of (block_tables s2) (seq_id q) = Some (map \<pi> t)"
    "\<forall>b. ref_count s2 (\<pi> b) = ref_count example_shared b"
    "free_blocks (gpu_allocator s2) = free_blocks (gpu_allocator example_shared)"
    by blast
  then show ?thesis
    by (intro exI[of _ m1] exI[of _ s1] exI[of _ m2] exI[of _ s2] exI[of _ \<pi>])
      (simp add: example_defs)
qed

text \<open>
  C5 as stated fails in its last clause: a block's own count need not return to its
  prior value.  In \<open>example_shared\<close> the siblings 1 and 2 have the tables \<open>[2, 1]\<close> and
  \<open>[2, 0]\<close>; after the round trip they have \<open>[0, 2]\<close> and \<open>[0, 1]\<close>, so device block 0
  went from count 1 to count 2 and device block 2 from count 2 to count 1.
\<close>

theorem swap_round_trip_counterexample:
  "\<not> isl (swap_out_then_in example_shared example_pair)
   \<and> ref_count example_shared (PhysicalTokenBlock GPU 0) = 1
   \<and> ref_count (projr (swap_out_then_in example_shared example_pair)) (PhysicalTokenBlock GPU 0) = 2
   \<and> ref_count example_shared (PhysicalTokenBlock GPU 2) = 2
   \<and> ref_count (projr (swap_out_then_in example_shared example_pair)) (PhysicalTokenBlock GPU 2) = 1
   \<and> get_block_table example_shared (example_seq 1 2) = Inr [2, 1]
   \<and> get_block_table (projr (swap_out_then_in example_shared example_pair)) (example_seq 1 2)
       = Inr [0, 2]
   \<and> get_block_table example_shared (example_seq 2 2) = Inr [2, 0]
   \<and> get_block_table (projr (swap_out_then_in example_shared example_pair)) (example_seq 2 2)
       = Inr [0, 1]"
  by (simp add: swap_out_then_in_def manager_code example_defs get_block_table_def)


section \<open>Swap-in and swap-out in one step\<close>

text \<open>
  C1.  After phase 3 of \<open>step\<close> the maps \<open>blocks_to_swap_in\<close> and \<open>blocks_to_swap_out\<close>
  are not both non-empty.  The code asserts this after phase 3, and the assertion can
  fail: in \<open>example_scheduler\<close> group 1 needs two free device blocks to pass
  \<^verbatim>\<open>can_append\<close> and one is free, so phase 1 swaps out group 2 (device block 2 to host
  block 3); group 1 then appends in place and takes no block, so in phase 2
  \<^verbatim>\<open>can_swap_in\<close> holds for group 2 and it is swapped in again (host block 3 to device
  block 2).  When phase 3 ends both maps have one entry and \<open>step\<close> raises
  AssertionError.
\<close>

theorem step_assertion_fails:
  "(\<exists>sch3 btc. phases_1_to_3 example_scheduler [] = Inr (sch3, [(3, 2)], [(2, 3)], btc))
   \<and> step example_scheduler [] = Inl AssertionError"
  by (simp add: scheduler_code manager_code example_defs scheduler_example_defs)


section \<open>Admission of pending groups\<close>

text \<open>
  C8.  Phase 3 of \<open>step\<close>, started with the count \<open>n\<close> of batched tokens.  If the swapped
  queue is not empty, nothing is admitted and the state is returned as it is.  If it is
  empty, the pending queue (with the new requests at its end) splits into the groups
  admitted and the rest: the admitted groups, in queue order, each passed both tests at
  its turn (\<^verbatim>\<open>can_allocate\<close>, and the count plus the prompt length at most 2048), each was
  allocated, set running and appended to \<open>running\<close>, and each prompt length was added to the
  count, which so never exceeds 2048 after an admission; the first group of the rest, if
  there is one, fails one of the
  tests; and the rest is the new pending queue.  Every pending group is taken to have at
  least one sequence.
\<close>

theorem admission_fifo_budget:
  "(swapped sch \<noteq> [] \<longrightarrow> phase3 sch inputs n = Inr sch)
   \<and> (swapped sch = [] \<and> (\<forall>g\<in>set (pending sch @ map fst inputs). seqs g \<noteq> []) \<longrightarrow>
       (\<exists>adm rest bm' n'. pending sch @ map fst inputs = adm @ rest
          \<and> admit_all (block_manager sch) n adm = Some (bm', n')
          \<and> n' = n + sum_list (map prompt_len adm)
          \<and> (adm \<noteq> [] \<longrightarrow> n' \<le> MAX_NUM_BATCHED_TOKENS)
          \<and> (rest \<noteq> [] \<longrightarrow> \<not> fits bm' n' (hd rest))
          \<and> phase3 sch inputs n =
              Inr ((fetch_inputs sch inputs)
                     \<lparr>block_manager := bm',
                      running := running sch @ map (set_all_status RUNNING) adm,
                      num_steps := fold (\<lambda>g. AList.update (group_id g) 0) adm (num_steps sch),
                      pending := rest\<rparr>)))"
proof (intro conjI impI)
  assume "swapped sch \<noteq> []"
  then show "phase3 sch inputs n = Inr sch" by (simp add: phase3_def)
next
  assume a: "swapped sch = [] \<and> (\<forall>g\<in>set (pending sch @ map fst inputs). seqs g \<noteq> [])"
  let ?f = "fetch_inputs sch inputs"
  from a have "\<forall>g\<in>set (pending ?f). seqs g \<noteq> []" by (simp add: fetch_inputs_fields)
  from join_loop_char[OF this, of ?f n 0]
  obtain adm rest bm' n' where P: "pending ?f = adm @ rest"
    and ad: "admit_all (block_manager ?f) n adm = Some (bm', n')"
    and r: "n' = n + sum_list (map prompt_len adm)"
      "adm \<noteq> [] \<longrightarrow> n' \<le> MAX_NUM_BATCHED_TOKENS"
      "rest \<noteq> [] \<longrightarrow> \<not> fits bm' n' (hd rest)"
    and res: "join_loop (pending ?f) 0 n ?f =
         Inr (?f\<lparr>block_manager := bm',
                  running := running ?f @ map (set_all_status RUNNING) adm,
                  num_steps := fold (\<lambda>g. AList.update (group_id g) 0) adm (num_steps ?f),
                  pending := (if rest = [] then [] else drop (0 + length adm) (pending ?f))\<rparr>)"
    by blast
  have pd: "(if rest = [] then [] else drop (0 + length adm) (pending ?f)) = rest"
    using P by simp
  have "phase3 sch inputs n =
              Inr (?f\<lparr>block_manager := bm',
                      running := running sch @ map (set_all_status RUNNING) adm,
                      num_steps := fold (\<lambda>g. AList.update (group_id g) 0) adm (num_steps sch),
                      pending := rest\<rparr>)"
    using a res unfolding pd by (simp add: phase3_def fetch_inputs_fields)
  with P ad r show "\<exists>adm rest bm' n'. pending sch @ map fst inputs = adm @ rest
          \<and> admit_all (block_manager sch) n adm = Some (bm', n')
          \<and> n' = n + sum_list (map prompt_len adm)
          \<and> (adm \<noteq> [] \<longrightarrow> n' \<le> MAX_NUM_BATCHED_TOKENS)
          \<and> (rest \<noteq> [] \<longrightarrow> \<not> fits bm' n' (hd rest))
          \<and> phase3 sch inputs n =
              Inr ((fetch_inputs sch inputs)
                     \<lparr>block_manager := bm',
                      running := running sch @ map (set_all_status RUNNING) adm,
                      num_steps := fold (\<lambda>g. AList.update (group_id g) 0) adm (num_steps sch),
                      pending := rest\<rparr>)"
    unfolding fetch_inputs_fields by blast
qed

theorem admission_fifo_budget_witness:
  "phase3 (example_scheduler\<lparr>swapped := [example_pair]\<rparr>) example_inputs 5
     = Inr (example_scheduler\<lparr>swapped := [example_pair]\<rparr>)
   \<and> (\<exists>adm rest bm' n'. pending example_idle @ map fst example_inputs = adm @ rest
          \<and> admit_all (block_manager example_idle) 0 adm = Some (bm', n')
          \<and> n' = 0 + sum_list (map prompt_len adm)
          \<and> (adm \<noteq> [] \<longrightarrow> n' \<le> MAX_NUM_BATCHED_TOKENS)
          \<and> (rest \<noteq> [] \<longrightarrow> \<not> fits bm' n' (hd rest))
          \<and> phase3 example_idle example_inputs 0 =
              Inr ((fetch_inputs example_idle example_inputs)
                     \<lparr>block_manager := bm',
                      running := running example_idle @ map (set_all_status RUNNING) adm,
                      num_steps := fold (\<lambda>g. AList.update (group_id g) 0) adm
                                     (num_steps example_idle),
                      pending := rest\<rparr>))
   \<and> (\<exists>sch'. phase3 example_idle example_inputs 0 = Inr sch'
          \<and> map group_id (running sch') = [1, 2] \<and> map group_id (pending sch') = [3]
          \<and> free_blocks (gpu_allocator (block_manager sch')) = [PhysicalTokenBlock GPU 0])"
proof (intro conjI)
  have h1: "swapped (example_scheduler\<lparr>swapped := [example_pair]\<rparr>) \<noteq> []" by simp
  show "phase3 (example_scheduler\<lparr>swapped := [example_pair]\<rparr>) example_inputs 5
     = Inr (example_scheduler\<lparr>swapped := [example_pair]\<rparr>)"
    by (rule admission_fifo_budget[THEN conjunct1, THEN mp, OF h1])
  have h2: "swapped example_idle = []
      \<and> (\<forall>g\<in>set (pending example_idle @ map fst example_inputs). seqs g \<noteq> [])"
    by (simp add: scheduler_example_defs)
  show "\<exists>adm rest bm' n'. pending example_idle @ map fst example_inputs = adm @ rest
          \<and> admit_all (block_manager example_idle) 0 adm = Some (bm', n')
          \<and> n' = 0 + sum_list (map prompt_len adm)
          \<and> (adm \<noteq> [] \<longrightarrow> n' \<le> MAX_NUM_BATCHED_TOKENS)
          \<and> (rest \<noteq> [] \<longrightarrow> \<not> fits bm' n' (hd rest))
          \<and> phase3 example_idle example_inputs 0 =
              Inr ((fetch_inputs example_idle example_inputs)
                     \<lparr>block_manager := bm',
                      running := running example_idle @ map (set_all_status RUNNING) adm,
                      num_steps := fold (\<lambda>g. AList.update (group_id g) 0) adm
                                     (num_steps example_idle),
                      pending := rest\<rparr>)"
    by (rule admission_fifo_budget[THEN conjunct2, THEN mp, OF h2])
  show "\<exists>sch'. phase3 example_idle example_inputs 0 = Inr sch'
          \<and> map group_id (running sch') = [1, 2] \<and> map group_id (pending sch') = [3]
          \<and> free_blocks (gpu_allocator (block_manager sch')) = [PhysicalTokenBlock GPU 0]"
    by (simp add: scheduler_code manager_code example_defs scheduler_example_defs
        numeral_2_eq_2)
qed

section \<open>Preemption\<close>




section \<open>The copy map\<close>

text \<open>
  C10.  The \<open>blocks_to_copy\<close> map of a plan that \<open>step\<close> returns has at most one
  destination for each source block number.  If two sequences handled one after the other
  by \<^verbatim>\<open>_append\<close> each get a copy-on-write pair from \<^verbatim>\<open>append\<close> with the same source, the
  loop goes on as if only the second pair had been recorded: the map holds the second
  destination for that source.  In a state that satisfies the manager's invariant the two
  destinations are different blocks, so the first one is lost.
\<close>

theorem copy_map_last_writer_wins:
  "(step sch inputs = Inr (plan, sch') \<longrightarrow> distinct (map fst (blocks_to_copy plan)))
   \<and> (status q1 \<noteq> FINISHED \<and> status q2 \<noteq> FINISHED
       \<and> append_slot bm q1 = Inr (Some (src, d1), bm1)
       \<and> append_slot bm1 q2 = Inr (Some (src, d2), bm2) \<longrightarrow>
       Scheduler_append_loop (q1 # q2 # rest) btc bm
         = Scheduler_append_loop rest (AList.update src d2 btc) bm2
       \<and> map_of (AList.update src d2 btc) src = Some d2
       \<and> (manager_invariant bm \<longrightarrow> d1 \<noteq> d2))"
proof (intro conjI impI)
  assume "step sch inputs = Inr (plan, sch')"
  then show "distinct (map fst (blocks_to_copy plan))" by (rule step_copy_keys)
next
  assume a: "status q1 \<noteq> FINISHED \<and> status q2 \<noteq> FINISHED
       \<and> append_slot bm q1 = Inr (Some (src, d1), bm1)
       \<and> append_slot bm1 q2 = Inr (Some (src, d2), bm2)"
  then show "Scheduler_append_loop (q1 # q2 # rest) btc bm
         = Scheduler_append_loop rest (AList.update src d2 btc) bm2"
    by simp
  show "map_of (AList.update src d2 btc) src = Some d2" by (simp add: update_conv')
  assume inv: "manager_invariant bm"
  from a have a1: "append_slot bm q1 = Inr (Some (src, d1), bm1)"
    and a2: "append_slot bm1 q2 = Inr (Some (src, d2), bm2)" by simp_all
  show "d1 \<noteq> d2" by (rule cow_destinations_differ[OF inv a1 a2])
qed


theorem copy_map_last_writer_wins_witness:
  "(\<exists>plan sch'. step example_beam [] = Inr (plan, sch')
       \<and> blocks_to_copy plan = [(3, 1)]
       \<and> plan_block_tables plan = [(1, [2]), (2, [1]), (3, [3])]
       \<and> distinct (map fst (blocks_to_copy plan)))
   \<and> (\<exists>bm1 bm2.
         append_slot (block_manager example_beam) (example_seq 1 1) = Inr (Some (3, 2), bm1)
       \<and> append_slot bm1 (example_seq 2 1) = Inr (Some (3, 1), bm2)
       \<and> Scheduler_append_loop [example_seq 1 1, example_seq 2 1, example_seq 3 1] []
             (block_manager example_beam)
           = Scheduler_append_loop [example_seq 3 1] (AList.update 3 1 []) bm2
       \<and> (2::nat) \<noteq> 1)"
proof (rule conjI)
  have "\<exists>plan sch'. step example_beam [] = Inr (plan, sch')
       \<and> blocks_to_copy plan = [(3, 1)]
       \<and> plan_block_tables plan = [(1, [2]), (2, [1]), (3, [3])]"
    by (simp add: scheduler_code manager_code example_defs scheduler_example_defs)
  then obtain plan sch' where st: "step example_beam [] = Inr (plan, sch')"
    and r: "blocks_to_copy plan = [(3, 1)]" "plan_block_tables plan = [(1, [2]), (2, [1]), (3, [3])]"
    by blast
  from copy_map_last_writer_wins[of example_beam "[]" plan sch', THEN conjunct1, THEN mp, OF st]
  have "distinct (map fst (blocks_to_copy plan))" .
  with st r show "\<exists>plan sch'. step example_beam [] = Inr (plan, sch')
       \<and> blocks_to_copy plan = [(3, 1)]
       \<and> plan_block_tables plan = [(1, [2]), (2, [1]), (3, [3])]
       \<and> distinct (map fst (blocks_to_copy plan))" by blast
next
  have "\<exists>bm1 bm2.
         append_slot (block_manager example_beam) (example_seq 1 1) = Inr (Some (3, 2), bm1)
       \<and> append_slot bm1 (example_seq 2 1) = Inr (Some (3, 1), bm2)"
    by (simp add: manager_code example_defs scheduler_example_defs)
  then obtain bm1 bm2 where
    a1: "append_slot (block_manager example_beam) (example_seq 1 1) = Inr (Some (3, 2), bm1)"
    and a2: "append_slot bm1 (example_seq 2 1) = Inr (Some (3, 1), bm2)"
    by blast
  have h: "status (example_seq 1 1) \<noteq> FINISHED \<and> status (example_seq 2 1) \<noteq> FINISHED
       \<and> append_slot (block_manager example_beam) (example_seq 1 1) = Inr (Some (3, 2), bm1)
       \<and> append_slot bm1 (example_seq 2 1) = Inr (Some (3, 1), bm2)"
    using a1 a2 by (simp add: example_seq_def)
  note T = copy_map_last_writer_wins[of _ _ _ _ "example_seq 1 1" "example_seq 2 1"
      "block_manager example_beam" 3 2 bm1 1 bm2 "[example_seq 3 1]" "[]",
      THEN conjunct2, THEN mp, OF h]
  from T[THEN conjunct2, THEN conjunct2, THEN mp, OF example_beam_invariant]
  have "(2::nat) \<noteq> 1" .
  with a1 a2 T[THEN conjunct1]
  show "\<exists>bm1 bm2.
         append_slot (block_manager example_beam) (example_seq 1 1) = Inr (Some (3, 2), bm1)
       \<and> append_slot bm1 (example_seq 2 1) = Inr (Some (3, 1), bm2)
       \<and> Scheduler_append_loop [example_seq 1 1, example_seq 2 1, example_seq 3 1] []
             (block_manager example_beam)
           = Scheduler_append_loop [example_seq 3 1] (AList.update 3 1 []) bm2
       \<and> (2::nat) \<noteq> 1" by blast
qed
end
